theory Spec2Isabelle
  imports Main "HOL-Library.Word"
begin

section \<open>The heap: nodes and list headers\<close>

text \<open>
  The Go package \<open>linkedlist\<close> works on pointers: a \<open>*node[T]\<close> and a
  \<open>*LinkedList[T]\<close> are addresses of heap objects, and several operations
  (\<open>Append\<close> through the cached \<open>tail\<close>, \<open>ConcatenarListas\<close>) write through
  pointers that alias. The model therefore keeps an explicit store. An address is an
  index into the store, \<open>nil\<close> is \<open>None\<close>, and allocation appends to the store,
  so a new object never reuses an address (Go is garbage collected: a reachable
  object is never freed).
\<close>

type_synonym addr = nat
type_synonym ref = "addr option"

text \<open>\<open>type node[T any] struct { value T; next *node[T] }\<close>\<close>

record 'a node =
  node_value :: 'a
  node_next :: ref

text \<open>
  \<open>type LinkedList[T comparable] struct { head *node[T]; tail *node[T]; size int }\<close>.
  The field \<open>size\<close> is a Go \<open>int\<close>, 64 bits wide on the usual platforms;
  \<open>++\<close>, \<open>--\<close> and \<open>+=\<close> wrap around.
\<close>

record LinkedList =
  head :: ref
  tail :: ref
  size_f :: "64 word"

record 'a heap =
  nodes :: "'a node list"
  headers :: "LinkedList list"

text \<open>
  A run-time panic: the dereference of a \<open>nil\<close> pointer, or the comparison with
  \<open>==\<close> of two values that cannot be compared. An address outside the store
  cannot exist in Go; the model treats its dereference like that of \<open>nil\<close>.
\<close>

datatype panic = NilDereference | UncomparableValue

text \<open>
  \<open>Remove\<close> and \<open>Search\<close> compare values of the element type \<open>T\<close> with
  \<open>==\<close>. What \<open>==\<close> does depends on \<open>T\<close>: on integers and strings it is
  equality; on floating-point numbers \<open>NaN == NaN\<close> is false; on an interface type
  it panics when the two dynamic values have the same uncomparable type. The model
  takes \<open>==\<close> as a parameter \<open>eq\<close> of these operations: \<open>eq x y = None\<close> is the
  panic, \<open>eq x y = Some b\<close> the result \<open>b\<close>. \<open>value_eq\<close> is \<open>==\<close> where it is
  equality, as on the integers of the examples.
\<close>

type_synonym 'a go_eq = "'a \<Rightarrow> 'a \<Rightarrow> bool option"

definition value_eq :: "'a go_eq" where
  "value_eq x y = Some (x = y)"

text \<open>The two errors \<open>Get\<close> returns: \<open>errors.New("lista vacia")\<close> and
  \<open>errors.New("posicion invalida")\<close>.\<close>

datatype get_error = EmptyList | InvalidPosition

definition empty_heap :: "'a heap" where
  "empty_heap = \<lparr>nodes = [], headers = []\<rparr>"

definition node_at :: "'a heap \<Rightarrow> ref \<Rightarrow> (addr \<times> 'a node) option" where
  "node_at s p =
     (case p of None \<Rightarrow> None
      | Some a \<Rightarrow> if a < length (nodes s) then Some (a, nodes s ! a) else None)"

definition list_at :: "'a heap \<Rightarrow> ref \<Rightarrow> (addr \<times> LinkedList) option" where
  "list_at s p =
     (case p of None \<Rightarrow> None
      | Some a \<Rightarrow> if a < length (headers s) then Some (a, headers s ! a) else None)"

definition put_list :: "addr \<Rightarrow> LinkedList \<Rightarrow> 'a heap \<Rightarrow> 'a heap" where
  "put_list a L s = s\<lparr>headers := (headers s)[a := L]\<rparr>"

definition put_next :: "addr \<Rightarrow> ref \<Rightarrow> 'a heap \<Rightarrow> 'a heap" where
  "put_next a q s = s\<lparr>nodes := (nodes s)[a := (nodes s ! a)\<lparr>node_next := q\<rparr>]\<rparr>"

text \<open>\<open>l.size++\<close> and \<open>l.size--\<close> on the list header at address \<open>a\<close>.\<close>

definition inc_size :: "addr \<Rightarrow> 'a heap \<Rightarrow> 'a heap" where
  "inc_size a s = put_list a ((headers s ! a)\<lparr>size_f := size_f (headers s ! a) + 1\<rparr>) s"

definition dec_size :: "addr \<Rightarrow> 'a heap \<Rightarrow> 'a heap" where
  "dec_size a s = put_list a ((headers s ! a)\<lparr>size_f := size_f (headers s ! a) - 1\<rparr>) s"

section \<open>Construction\<close>

text \<open>\<open>newNode(value)\<close>: a new node with \<open>next\<close> set to \<open>nil\<close>.\<close>

definition newNode :: "'a \<Rightarrow> 'a heap \<Rightarrow> addr \<times> 'a heap" where
  "newNode v s =
     (length (nodes s), s\<lparr>nodes := nodes s @ [\<lparr>node_value = v, node_next = None\<rparr>]\<rparr>)"

text \<open>\<open>NewLinkedList()\<close> and the literal \<open>&LinkedList[T]{}\<close>: \<open>head\<close> and
  \<open>tail\<close> are \<open>nil\<close>, \<open>size\<close> is the zero value.\<close>

definition NewLinkedList :: "'a heap \<Rightarrow> ref \<times> 'a heap" where
  "NewLinkedList s =
     (Some (length (headers s)),
      s\<lparr>headers := headers s @ [\<lparr>head = None, tail = None, size_f = 0\<rparr>]\<rparr>)"

section \<open>Insertion\<close>

definition Append :: "ref \<Rightarrow> 'a \<Rightarrow> 'a heap \<Rightarrow> panic + 'a heap" where
  "Append l v s0 =
     (let (n, s) = newNode v s0 in
      case list_at s l of
        None \<Rightarrow> Inl NilDereference
      | Some (la, L) \<Rightarrow>
          if head L = None then
            Inr (put_list la (L\<lparr>head := Some n, tail := Some n, size_f := size_f L + 1\<rparr>) s)
          else
            (case node_at s (tail L) of
               None \<Rightarrow> Inl NilDereference
             | Some (t, tn) \<Rightarrow>
                 Inr (put_list la (L\<lparr>tail := Some n, size_f := size_f L + 1\<rparr>)
                        (put_next t (Some n) s))))"

definition Prepend :: "ref \<Rightarrow> 'a \<Rightarrow> 'a heap \<Rightarrow> panic + 'a heap" where
  "Prepend l v s0 =
     (let (n, s) = newNode v s0 in
      case list_at s l of
        None \<Rightarrow> Inl NilDereference
      | Some (la, L) \<Rightarrow>
          if head L = None then
            Inr (put_list la (L\<lparr>head := Some n, tail := Some n, size_f := size_f L + 1\<rparr>) s)
          else
            Inr (put_list la (L\<lparr>head := Some n, size_f := size_f L + 1\<rparr>)
                   (put_next n (head L) s)))"

text \<open>
  The loop of \<open>InsertAt\<close>:
  \<open>for current != nil && position > 1 { current = current.next; position--; l.size++ }\<close>.
  It stops after at most \<open>position - 1\<close> steps. The position is a Go \<open>int\<close>;
  it is only decremented while it is greater than 1, so it never wraps and an
  unbounded integer models it exactly.
\<close>

function InsertAt_loop :: "addr \<Rightarrow> ref \<Rightarrow> int \<Rightarrow> 'a heap \<Rightarrow> panic + (ref \<times> 'a heap)" where
  "InsertAt_loop la current position s =
     (if current \<noteq> None \<and> position > 1 then
        (case node_at s current of
           None \<Rightarrow> Inl NilDereference
         | Some (c, cn) \<Rightarrow> InsertAt_loop la (node_next cn) (position - 1) (inc_size la s))
      else Inr (current, s))"
  by pat_completeness auto
termination
  by (relation "measure (\<lambda>(la, current, position, s). nat position)") auto

declare InsertAt_loop.simps [simp del]

definition InsertAt :: "ref \<Rightarrow> 'a \<Rightarrow> int \<Rightarrow> 'a heap \<Rightarrow> panic + 'a heap" where
  "InsertAt l v position s0 =
     (if position < 0 then Inr s0
      else
        let (n, s) = newNode v s0 in
        if position = 0 then
          (case Prepend l v s of
             Inl e \<Rightarrow> Inl e
           | Inr s1 \<Rightarrow>
               (case list_at s1 l of
                  None \<Rightarrow> Inl NilDereference
                | Some (la, L) \<Rightarrow> Inr (inc_size la s1)))
        else
          (case list_at s l of
             None \<Rightarrow> Inl NilDereference
           | Some (la, L) \<Rightarrow>
               (case InsertAt_loop la (head L) position s of
                  Inl e \<Rightarrow> Inl e
                | Inr (current, s1) \<Rightarrow>
                    (case current of
                       None \<Rightarrow> Inr s1
                     | Some c \<Rightarrow>
                         (case node_at s1 current of
                            None \<Rightarrow> Inl NilDereference
                          | Some (c, cn) \<Rightarrow>
                              Inr (put_next c (Some n) (put_next n (node_next cn) s1)))))))"

section \<open>Removal\<close>

text \<open>
  The loop of \<open>Remove\<close> follows \<open>next\<close> links until it finds the value or reaches
  \<open>nil\<close>. On a cyclic chain without the value it never returns: the result
  \<open>None\<close> of the model.
\<close>

partial_function (option) Remove_loop ::
  "'a go_eq \<Rightarrow> addr \<Rightarrow> 'a \<Rightarrow> addr \<Rightarrow> 'a heap \<Rightarrow> (panic + 'a heap) option" where
  "Remove_loop eq la v current s =
     (case node_at s (Some current) of
        None \<Rightarrow> Some (Inl NilDereference)
      | Some (c, cn) \<Rightarrow>
          (case node_next cn of
             None \<Rightarrow> Some (Inr s)
           | Some nx \<Rightarrow>
               (case node_at s (Some nx) of
                  None \<Rightarrow> Some (Inl NilDereference)
                | Some (x, xn) \<Rightarrow>
                    (case eq (node_value xn) v of
                       None \<Rightarrow> Some (Inl UncomparableValue)
                     | Some b \<Rightarrow>
                         if b then Some (Inr (dec_size la (put_next c (node_next xn) s)))
                         else Remove_loop eq la v nx s))))"

declare Remove_loop.simps [code]

definition Remove :: "'a go_eq \<Rightarrow> ref \<Rightarrow> 'a \<Rightarrow> 'a heap \<Rightarrow> (panic + 'a heap) option" where
  "Remove eq l v s =
     (case list_at s l of
        None \<Rightarrow> Some (Inl NilDereference)
      | Some (la, L) \<Rightarrow>
          (case head L of
             None \<Rightarrow> Some (Inr s)
           | Some h \<Rightarrow>
               (case node_at s (Some h) of
                  None \<Rightarrow> Some (Inl NilDereference)
                | Some (h, hn) \<Rightarrow>
                    (case eq (node_value hn) v of
                       None \<Rightarrow> Some (Inl UncomparableValue)
                     | Some b \<Rightarrow>
                         if b then
                           Some (Inr (put_list la
                                  (L\<lparr>head := node_next hn, size_f := size_f L - 1\<rparr>) s))
                         else Remove_loop eq la v h s))))"

section \<open>Queries\<close>

text \<open>
  \<open>String\<close> formats each value with \<open>fmt.Sprintf("%v", value)\<close>, a function of
  the standard library: the parameter \<open>fmt\<close> of the model.
\<close>

partial_function (option) String_loop ::
  "('a \<Rightarrow> string) \<Rightarrow> ref \<Rightarrow> string \<Rightarrow> 'a heap \<Rightarrow> (panic + string) option" where
  "String_loop fmt current result s =
     (case current of
        None \<Rightarrow> Some (Inr result)
      | Some c \<Rightarrow>
          (case node_at s current of
             None \<Rightarrow> Some (Inl NilDereference)
           | Some (c, cn) \<Rightarrow>
               String_loop fmt (node_next cn)
                 ((result @ fmt (node_value cn)) @ (if node_next cn \<noteq> None then '' '' else ''''))
                 s))"

declare String_loop.simps [code]

definition String :: "('a \<Rightarrow> string) \<Rightarrow> ref \<Rightarrow> 'a heap \<Rightarrow> (panic + (string \<times> 'a heap)) option" where
  "String fmt l s =
     (case list_at s l of
        None \<Rightarrow> Some (Inl NilDereference)
      | Some (la, L) \<Rightarrow>
          if head L = None then Some (Inr (''[]'', s))
          else
            (case String_loop fmt (head L) ''['' s of
               None \<Rightarrow> None
             | Some (Inl e) \<Rightarrow> Some (Inl e)
             | Some (Inr result) \<Rightarrow> Some (Inr (result @ '']'', s))))"

text \<open>
  The position \<open>Search\<close> counts up is a Go \<open>int\<close>; it counts nodes visited, which
  stays far below \<open>2^63\<close> on any chain that fits in memory, so an unbounded
  integer models it.
\<close>

partial_function (option) Search_loop ::
  "'a go_eq \<Rightarrow> 'a \<Rightarrow> ref \<Rightarrow> int \<Rightarrow> 'a heap \<Rightarrow> (panic + int) option" where
  "Search_loop eq v current position s =
     (case current of
        None \<Rightarrow> Some (Inr (- 1))
      | Some c \<Rightarrow>
          (case node_at s current of
             None \<Rightarrow> Some (Inl NilDereference)
           | Some (c, cn) \<Rightarrow>
               (case eq (node_value cn) v of
                  None \<Rightarrow> Some (Inl UncomparableValue)
                | Some b \<Rightarrow>
                    if b then Some (Inr position)
                    else Search_loop eq v (node_next cn) (position + 1) s)))"

declare Search_loop.simps [code]

definition Search :: "'a go_eq \<Rightarrow> ref \<Rightarrow> 'a \<Rightarrow> 'a heap \<Rightarrow> (panic + (int \<times> 'a heap)) option" where
  "Search eq l v s =
     (case list_at s l of
        None \<Rightarrow> Some (Inl NilDereference)
      | Some (la, L) \<Rightarrow>
          if head L = None then Some (Inr (- 1, s))
          else
            (case Search_loop eq v (head L) 0 s of
               None \<Rightarrow> None
             | Some (Inl e) \<Rightarrow> Some (Inl e)
             | Some (Inr position) \<Rightarrow> Some (Inr (position, s))))"

text \<open>
  The loop of \<open>Get\<close>:
  \<open>for current != nil && position > 0 { current = current.next; position-- }\<close>.
  It stops after at most \<open>position\<close> steps.
\<close>

function Get_loop :: "ref \<Rightarrow> int \<Rightarrow> 'a heap \<Rightarrow> panic + ref" where
  "Get_loop current position s =
     (if current \<noteq> None \<and> position > 0 then
        (case node_at s current of
           None \<Rightarrow> Inl NilDereference
         | Some (c, cn) \<Rightarrow> Get_loop (node_next cn) (position - 1) s)
      else Inr current)"
  by pat_completeness auto
termination
  by (relation "measure (\<lambda>(current, position, s). nat position)") auto

declare Get_loop.simps [simp del]

text \<open>
  \<open>Get\<close> returns \<open>(T, error)\<close>: either an error (with the zero value of \<open>T\<close>,
  which carries no information) or the value found (with a \<open>nil\<close> error).
\<close>

definition Get :: "ref \<Rightarrow> int \<Rightarrow> 'a heap \<Rightarrow> panic + ((get_error + 'a) \<times> 'a heap)" where
  "Get l position s =
     (case list_at s l of
        None \<Rightarrow> Inl NilDereference
      | Some (la, L) \<Rightarrow>
          if head L = None then Inr (Inl EmptyList, s)
          else
            (case Get_loop (head L) position s of
               Inl e \<Rightarrow> Inl e
             | Inr current \<Rightarrow>
                 (case current of
                    None \<Rightarrow> Inr (Inl InvalidPosition, s)
                  | Some c \<Rightarrow>
                      (case node_at s current of
                         None \<Rightarrow> Inl NilDereference
                       | Some (c, cn) \<Rightarrow> Inr (Inr (node_value cn), s)))))"

partial_function (option) Size_loop ::
  "ref \<Rightarrow> int \<Rightarrow> 'a heap \<Rightarrow> (panic + int) option" where
  "Size_loop current position s =
     (case current of
        None \<Rightarrow> Some (Inr position)
      | Some c \<Rightarrow>
          (case node_at s current of
             None \<Rightarrow> Some (Inl NilDereference)
           | Some (c, cn) \<Rightarrow> Size_loop (node_next cn) (position + 1) s))"

declare Size_loop.simps [code]

definition Size :: "ref \<Rightarrow> 'a heap \<Rightarrow> (panic + (int \<times> 'a heap)) option" where
  "Size l s =
     (case list_at s l of
        None \<Rightarrow> Some (Inl NilDereference)
      | Some (la, L) \<Rightarrow>
          if head L = None then Some (Inr (0, s))
          else
            (case Size_loop (head L) 0 s of
               None \<Rightarrow> None
             | Some (Inl e) \<Rightarrow> Some (Inl e)
             | Some (Inr position) \<Rightarrow> Some (Inr (position, s))))"

section \<open>Combination\<close>

text \<open>
  \<open>ConcatenarListas\<close> and \<open>IntercalarListas\<close> are methods: the first argument
  of the model is the receiver \<open>l\<close>, which the bodies never mention. Each
  assignment of \<open>ConcatenarListas\<close> reads the heap the previous one left, since
  \<open>l1\<close> and \<open>l2\<close> may be the same list.
\<close>

definition ConcatenarListas :: "ref \<Rightarrow> ref \<Rightarrow> ref \<Rightarrow> 'a heap \<Rightarrow> panic + (ref \<times> 'a heap)" where
  "ConcatenarListas l l1 l2 s =
     (case list_at s l1 of
        None \<Rightarrow> Inl NilDereference
      | Some (a1, L1) \<Rightarrow>
          if head L1 = None then Inr (l2, s)
          else
            (case list_at s l2 of
               None \<Rightarrow> Inl NilDereference
             | Some (a2, L2) \<Rightarrow>
                 if head L2 = None then Inr (l1, s)
                 else
                   (case node_at s (tail L1) of
                      None \<Rightarrow> Inl NilDereference
                    | Some (t, tn) \<Rightarrow>
                        let s1 = put_next t (head L2) s;
                            s2 = put_list a1 ((headers s1 ! a1)\<lparr>tail := tail (headers s1 ! a2)\<rparr>) s1;
                            s3 = put_list a1
                                   ((headers s2 ! a1)\<lparr>size_f :=
                                      size_f (headers s2 ! a1) + size_f (headers s2 ! a2)\<rparr>) s2
                        in Inr (l1, s3))))"

text \<open>The first loop of \<open>IntercalarListas\<close>, while both inputs have nodes left.\<close>

partial_function (option) Intercalar_both ::
  "ref \<Rightarrow> ref \<Rightarrow> ref \<Rightarrow> 'a heap \<Rightarrow> (panic + (ref \<times> ref \<times> 'a heap)) option" where
  "Intercalar_both result current1 current2 s =
     (if current1 \<noteq> None \<and> current2 \<noteq> None then
        (case node_at s current1 of
           None \<Rightarrow> Some (Inl NilDereference)
         | Some (c1, n1) \<Rightarrow>
             (case Append result (node_value n1) s of
                Inl e \<Rightarrow> Some (Inl e)
              | Inr s1 \<Rightarrow>
                  (case node_at s1 current2 of
                     None \<Rightarrow> Some (Inl NilDereference)
                   | Some (c2, n2) \<Rightarrow>
                       (case Append result (node_value n2) s1 of
                          Inl e \<Rightarrow> Some (Inl e)
                        | Inr s2 \<Rightarrow>
                            Intercalar_both result
                              (node_next (nodes s2 ! c1)) (node_next (nodes s2 ! c2)) s2))))
      else Some (Inr (current1, current2, s)))"

declare Intercalar_both.simps [code]

text \<open>The second and third loops: append what is left of one input.\<close>

partial_function (option) Intercalar_rest ::
  "ref \<Rightarrow> ref \<Rightarrow> 'a heap \<Rightarrow> (panic + 'a heap) option" where
  "Intercalar_rest result current s =
     (case current of
        None \<Rightarrow> Some (Inr s)
      | Some c \<Rightarrow>
          (case node_at s current of
             None \<Rightarrow> Some (Inl NilDereference)
           | Some (c, cn) \<Rightarrow>
               (case Append result (node_value cn) s of
                  Inl e \<Rightarrow> Some (Inl e)
                | Inr s1 \<Rightarrow> Intercalar_rest result (node_next (nodes s1 ! c)) s1)))"

declare Intercalar_rest.simps [code]

definition IntercalarListas ::
  "ref \<Rightarrow> ref \<Rightarrow> ref \<Rightarrow> 'a heap \<Rightarrow> (panic + (ref \<times> 'a heap)) option" where
  "IntercalarListas l l1 l2 s =
     (if l1 = None \<or> l2 = None then Some (Inr (None, s))
      else
        let (result, s0) = NewLinkedList s in
        (case list_at s0 l1 of
           None \<Rightarrow> Some (Inl NilDereference)
         | Some (a1, L1) \<Rightarrow>
             (case list_at s0 l2 of
                None \<Rightarrow> Some (Inl NilDereference)
              | Some (a2, L2) \<Rightarrow>
                  (case Intercalar_both result (head L1) (head L2) s0 of
                     None \<Rightarrow> None
                   | Some (Inl e) \<Rightarrow> Some (Inl e)
                   | Some (Inr (current1, current2, s1)) \<Rightarrow>
                       (case Intercalar_rest result current1 s1 of
                          None \<Rightarrow> None
                        | Some (Inl e) \<Rightarrow> Some (Inl e)
                        | Some (Inr s2) \<Rightarrow>
                            (case Intercalar_rest result current2 s2 of
                               None \<Rightarrow> None
                             | Some (Inl e) \<Rightarrow> Some (Inl e)
                             | Some (Inr s3) \<Rightarrow> Some (Inr (result, s3))))))))"

section \<open>Abstraction: the chain of a list\<close>

text \<open>
  \<open>seg ns p as q\<close>: following \<open>next\<close> links from \<open>p\<close> visits exactly the
  addresses \<open>as\<close>, all allocated, and arrives at \<open>q\<close>. A chain is a segment
  that ends in \<open>nil\<close>; it is what every traversal of the package walks.
\<close>

fun seg :: "'a node list \<Rightarrow> ref \<Rightarrow> addr list \<Rightarrow> ref \<Rightarrow> bool" where
  "seg ns p [] q = (p = q)"
| "seg ns p (a # as) q = (p = Some a \<and> a < length ns \<and> seg ns (node_next (ns ! a)) as q)"

definition chain :: "'a node list \<Rightarrow> ref \<Rightarrow> addr list \<Rightarrow> bool" where
  "chain ns p as = seg ns p as None"

definition elems :: "'a heap \<Rightarrow> addr list \<Rightarrow> 'a list" where
  "elems s as = map (\<lambda>a. node_value (nodes s ! a)) as"

definition is_list :: "'a heap \<Rightarrow> ref \<Rightarrow> addr list \<Rightarrow> bool" where
  "is_list s l as =
     (case list_at s l of None \<Rightarrow> False | Some (la, L) \<Rightarrow> chain (nodes s) (head L) as)"

definition tail_is_last :: "'a heap \<Rightarrow> ref \<Rightarrow> addr list \<Rightarrow> bool" where
  "tail_is_last s l as =
     (case list_at s l of None \<Rightarrow> False
      | Some (la, L) \<Rightarrow> as = [] \<or> tail L = Some (last as))"

section \<open>Reference functions on value sequences\<close>

text \<open>The rendering \<open>[v1 v2 ... vn]\<close>: values separated by single spaces, in brackets.\<close>

fun join_space :: "string list \<Rightarrow> string" where
  "join_space [] = ''''"
| "join_space [x] = x"
| "join_space (x # y # zs) = x @ '' '' @ join_space (y # zs)"

definition render :: "('a \<Rightarrow> string) \<Rightarrow> 'a list \<Rightarrow> string" where
  "render fmt vs = ''['' @ join_space (map fmt vs) @ '']''"

text \<open>A sequence of \<open>Append\<close> calls on the same list, in order.\<close>

fun Append_all :: "ref \<Rightarrow> 'a list \<Rightarrow> 'a heap \<Rightarrow> panic + 'a heap" where
  "Append_all l [] s = Inr s"
| "Append_all l (v # vs) s =
     (case Append l v s of Inl e \<Rightarrow> Inl e | Inr s' \<Rightarrow> Append_all l vs s')"

text \<open>
  Interleaving as the specification words it: one value from each input in turn
  while both have values left, then what is left of the longer input.
\<close>

fun interleave :: "'a list \<Rightarrow> 'a list \<Rightarrow> 'a list" where
  "interleave (x # xs) (y # ys) = x # y # interleave xs ys"
| "interleave [] ys = ys"
| "interleave xs [] = xs"

text \<open>The alternating part alone, as the first loop of \<open>IntercalarListas\<close> produces it.\<close>

fun alternate :: "'a list \<Rightarrow> 'a list \<Rightarrow> 'a list" where
  "alternate (x # xs) (y # ys) = x # y # alternate xs ys"
| "alternate xs ys = []"

text \<open>
  \<open>fmt.Sprintf("%v", n)\<close> for an \<open>int\<close> of the standard library: decimal digits,
  with a leading minus sign for a negative number. Used for the examples on lists
  of integers.
\<close>

definition digit_char :: "nat \<Rightarrow> char" where
  "digit_char d = ''0123456789'' ! d"

function fmt_nat :: "nat \<Rightarrow> string" where
  "fmt_nat n = (if n < 10 then [digit_char n] else fmt_nat (n div 10) @ [digit_char (n mod 10)])"
  by pat_completeness auto
termination
  by (relation "measure id") auto

declare fmt_nat.simps [simp del]

definition fmt_int :: "int \<Rightarrow> string" where
  "fmt_int i = (if i < 0 then CHR ''-'' # fmt_nat (nat (- i)) else fmt_nat (nat i))"

section \<open>Invariants of the loops of IntercalarListas\<close>

text \<open>
  \<open>result_inv s st r cs\<close>: in the heap \<open>st\<close> reached from \<open>s\<close>, the result list
  at the new address \<open>r\<close> has the chain \<open>cs\<close> of nodes allocated since \<open>s\<close>,
  its \<open>tail\<close> is the last of them, and every list header and node of \<open>s\<close> is as
  it was. \<open>fresh_tail\<close> is the part of it that needs no assumption on the inputs.
\<close>

definition result_inv :: "'a heap \<Rightarrow> 'a heap \<Rightarrow> addr \<Rightarrow> addr list \<Rightarrow> bool" where
  "result_inv s st r cs =
     (r = length (headers s) \<and> length (headers st) = Suc r \<and> (\<forall>b<r. headers st ! b = headers s ! b)
      \<and> length (nodes s) \<le> length (nodes st)
      \<and> (\<forall>a<length (nodes s). nodes st ! a = nodes s ! a)
      \<and> chain (nodes st) (head (headers st ! r)) cs
      \<and> (cs = [] \<or> tail (headers st ! r) = Some (last cs))
      \<and> (\<forall>c\<in>set cs. length (nodes s) \<le> c))"

definition fresh_tail :: "'a heap \<Rightarrow> 'a heap \<Rightarrow> addr \<Rightarrow> bool" where
  "fresh_tail s st r =
     (r = length (headers s) \<and> length (headers st) = Suc r \<and> (\<forall>b<r. headers st ! b = headers s ! b)
      \<and> length (nodes s) \<le> length (nodes st)
      \<and> (\<forall>a<length (nodes s). nodes st ! a = nodes s ! a)
      \<and> (head (headers st ! r) = None
           \<or> (\<exists>t. tail (headers st ! r) = Some t \<and> length (nodes s) \<le> t)))"

section \<open>Example heaps\<close>

text \<open>
  The heap after \<open>NewLinkedList\<close>, \<open>Append(1)\<close>, \<open>Append(2)\<close>: the list
  \<open>[1 2]\<close> at address 0.
\<close>

definition heap_1_2 :: "int heap" where
  "heap_1_2 =
     \<lparr>nodes = [\<lparr>node_value = 1, node_next = Some 1\<rparr>, \<lparr>node_value = 2, node_next = None\<rparr>],
      headers = [\<lparr>head = Some 0, tail = Some 1, size_f = 2\<rparr>]\<rparr>"

text \<open>\<open>heap_1_2\<close> after \<open>Append(1)\<close>, and then after \<open>Remove(1)\<close>.\<close>

definition heap_1_2_1 :: "int heap" where
  "heap_1_2_1 =
     \<lparr>nodes = [\<lparr>node_value = 1, node_next = Some 1\<rparr>, \<lparr>node_value = 2, node_next = Some 2\<rparr>,
               \<lparr>node_value = 1, node_next = None\<rparr>],
      headers = [\<lparr>head = Some 0, tail = Some 2, size_f = 3\<rparr>]\<rparr>"

definition heap_2_1 :: "int heap" where
  "heap_2_1 =
     \<lparr>nodes = [\<lparr>node_value = 1, node_next = Some 1\<rparr>, \<lparr>node_value = 2, node_next = Some 2\<rparr>,
               \<lparr>node_value = 1, node_next = None\<rparr>],
      headers = [\<lparr>head = Some 1, tail = Some 2, size_f = 2\<rparr>]\<rparr>"

text \<open>\<open>heap_1_2\<close> after \<open>ConcatenarListas\<close> of the list at 0 with itself: the
  last node links back to the first.\<close>

definition heap_1_2_cycle :: "int heap" where
  "heap_1_2_cycle =
     \<lparr>nodes = [\<lparr>node_value = 1, node_next = Some 1\<rparr>, \<lparr>node_value = 2, node_next = Some 0\<rparr>],
      headers = [\<lparr>head = Some 0, tail = Some 1, size_f = 4\<rparr>]\<rparr>"

text \<open>\<open>heap_1_2\<close> after \<open>Remove(2)\<close>: the list \<open>[1]\<close>, whose \<open>tail\<close> is still the
  removed node. Then with a second list \<open>[3 4]\<close> at address 1, built by
  \<open>NewLinkedList\<close>, \<open>Append(3)\<close>, \<open>Append(4)\<close>; then after \<open>ConcatenarListas\<close> of
  the list at 0 and the list at 1.\<close>

definition heap_1_stale :: "int heap" where
  "heap_1_stale =
     \<lparr>nodes = [\<lparr>node_value = 1, node_next = None\<rparr>, \<lparr>node_value = 2, node_next = None\<rparr>],
      headers = [\<lparr>head = Some 0, tail = Some 1, size_f = 1\<rparr>]\<rparr>"

definition heap_1_stale_34 :: "int heap" where
  "heap_1_stale_34 =
     \<lparr>nodes = [\<lparr>node_value = 1, node_next = None\<rparr>, \<lparr>node_value = 2, node_next = None\<rparr>,
               \<lparr>node_value = 3, node_next = Some 3\<rparr>, \<lparr>node_value = 4, node_next = None\<rparr>],
      headers = [\<lparr>head = Some 0, tail = Some 1, size_f = 1\<rparr>,
                 \<lparr>head = Some 2, tail = Some 3, size_f = 2\<rparr>]\<rparr>"

definition heap_1_stale_34_spliced :: "int heap" where
  "heap_1_stale_34_spliced =
     \<lparr>nodes = [\<lparr>node_value = 1, node_next = None\<rparr>, \<lparr>node_value = 2, node_next = Some 2\<rparr>,
               \<lparr>node_value = 3, node_next = Some 3\<rparr>, \<lparr>node_value = 4, node_next = None\<rparr>],
      headers = [\<lparr>head = Some 0, tail = Some 3, size_f = 3\<rparr>,
                 \<lparr>head = Some 2, tail = Some 3, size_f = 2\<rparr>]\<rparr>"

text \<open>The heap after \<open>NewLinkedList\<close>, \<open>Append(5)\<close>, \<open>Append(5)\<close>.\<close>

definition heap_5_5 :: "int heap" where
  "heap_5_5 =
     \<lparr>nodes = [\<lparr>node_value = 5, node_next = Some 1\<rparr>, \<lparr>node_value = 5, node_next = None\<rparr>],
      headers = [\<lparr>head = Some 0, tail = Some 1, size_f = 2\<rparr>]\<rparr>"

text \<open>Two lists in one heap: \<open>[1 2]\<close> at address 0 and \<open>[3 4]\<close> at address 1.\<close>

definition heap_12_34 :: "int heap" where
  "heap_12_34 =
     \<lparr>nodes = [\<lparr>node_value = 1, node_next = Some 1\<rparr>, \<lparr>node_value = 2, node_next = None\<rparr>,
               \<lparr>node_value = 3, node_next = Some 3\<rparr>, \<lparr>node_value = 4, node_next = None\<rparr>],
      headers = [\<lparr>head = Some 0, tail = Some 1, size_f = 2\<rparr>,
               \<lparr>head = Some 2, tail = Some 3, size_f = 2\<rparr>]\<rparr>"

text \<open>Two lists in one heap: \<open>[1 3 5]\<close> at address 0 and \<open>[2 4]\<close> at address 1.\<close>

definition heap_135_24 :: "int heap" where
  "heap_135_24 =
     \<lparr>nodes = [\<lparr>node_value = 1, node_next = Some 1\<rparr>, \<lparr>node_value = 3, node_next = Some 2\<rparr>,
               \<lparr>node_value = 5, node_next = None\<rparr>,
               \<lparr>node_value = 2, node_next = Some 4\<rparr>, \<lparr>node_value = 4, node_next = None\<rparr>],
      headers = [\<lparr>head = Some 0, tail = Some 2, size_f = 3\<rparr>,
               \<lparr>head = Some 3, tail = Some 4, size_f = 2\<rparr>]\<rparr>"

text \<open>\<open>heap_12_34\<close> after \<open>ConcatenarListas\<close> of the list at 0 and the list at 1.\<close>

definition heap_1234 :: "int heap" where
  "heap_1234 =
     \<lparr>nodes = [\<lparr>node_value = 1, node_next = Some 1\<rparr>, \<lparr>node_value = 2, node_next = Some 2\<rparr>,
               \<lparr>node_value = 3, node_next = Some 3\<rparr>, \<lparr>node_value = 4, node_next = None\<rparr>],
      headers = [\<lparr>head = Some 0, tail = Some 3, size_f = 4\<rparr>,
               \<lparr>head = Some 2, tail = Some 3, size_f = 2\<rparr>]\<rparr>"

text \<open>\<open>heap_135_24\<close> after \<open>IntercalarListas\<close> of the list at 0 and the list at 1:
  the new list \<open>[1 2 3 4 5]\<close> at address 2, on five new nodes.\<close>

definition heap_135_24_12345 :: "int heap" where
  "heap_135_24_12345 =
     \<lparr>nodes = [\<lparr>node_value = 1, node_next = Some 1\<rparr>, \<lparr>node_value = 3, node_next = Some 2\<rparr>,
               \<lparr>node_value = 5, node_next = None\<rparr>,
               \<lparr>node_value = 2, node_next = Some 4\<rparr>, \<lparr>node_value = 4, node_next = None\<rparr>,
               \<lparr>node_value = 1, node_next = Some 6\<rparr>, \<lparr>node_value = 2, node_next = Some 7\<rparr>,
               \<lparr>node_value = 3, node_next = Some 8\<rparr>, \<lparr>node_value = 4, node_next = Some 9\<rparr>,
               \<lparr>node_value = 5, node_next = None\<rparr>],
      headers = [\<lparr>head = Some 0, tail = Some 2, size_f = 3\<rparr>,
               \<lparr>head = Some 3, tail = Some 4, size_f = 2\<rparr>,
               \<lparr>head = Some 5, tail = Some 9, size_f = 5\<rparr>]\<rparr>"

section \<open>Facts about chains\<close>

lemma chain_Nil [simp]: "chain ns p [] = (p = None)"
  by (simp add: chain_def)

lemma chain_Cons [simp]:
  "chain ns p (a # as) = (p = Some a \<and> a < length ns \<and> chain ns (node_next (ns ! a)) as)"
  by (simp add: chain_def)

lemma chain_None [simp]: "chain ns None as = (as = [])"
  by (cases as) auto

lemma seg_append: "seg ns p (as @ bs) q = (\<exists>m. seg ns p as m \<and> seg ns m bs q)"
  by (induction as arbitrary: p) auto

lemma seg_bound: "seg ns p as q \<Longrightarrow> a \<in> set as \<Longrightarrow> a < length ns"
  by (induction as arbitrary: p) auto

lemma chain_bound: "chain ns p as \<Longrightarrow> a \<in> set as \<Longrightarrow> a < length ns"
  unfolding chain_def by (rule seg_bound)

lemma chain_unique: "chain ns p as \<Longrightarrow> chain ns p bs \<Longrightarrow> as = bs"
proof (induction as arbitrary: p bs)
  case Nil
  then show ?case by simp
next
  case (Cons a as)
  then show ?case by (cases bs) auto
qed

lemma chain_head_fresh:
  assumes "chain ns (node_next (ns ! a)) as"
  shows "a \<notin> set as"
proof
  assume "a \<in> set as"
  then obtain us vs where split: "as = us @ a # vs"
    by (auto simp: in_set_conv_decomp)
  with assms have "seg ns (node_next (ns ! a)) (us @ a # vs) None"
    by (simp add: chain_def)
  then obtain m where "seg ns m (a # vs) None"
    by (auto simp: seg_append)
  then have "chain ns (node_next (ns ! a)) vs"
    by (simp add: chain_def)
  with assms have "as = vs"
    by (rule chain_unique)
  with split show False by simp
qed

lemma chain_distinct: "chain ns p as \<Longrightarrow> distinct as"
  by (induction as arbitrary: p) (auto dest: chain_head_fresh)

lemma seg_update_other:
  "a \<notin> set as \<Longrightarrow> seg (ns[a := x]) p as q = seg ns p as q"
  by (induction as arbitrary: p) auto

lemma seg_grow:
  "seg ns p as q \<Longrightarrow> seg (ns @ ms) p as q"
  by (induction as arbitrary: p) (auto simp: nth_append)

lemma seg_agree:
  "seg ns p as q \<Longrightarrow> length ns \<le> length ms \<Longrightarrow> (\<forall>a \<in> set as. ms ! a = ns ! a)
     \<Longrightarrow> seg ms p as q"
  by (induction as arbitrary: p) auto

lemma Get_loop_chain:
  "chain (nodes s) p as \<Longrightarrow> 0 \<le> i \<Longrightarrow>
     Get_loop p i s = Inr (if nat i < length as then Some (as ! nat i) else None)"
proof (induction as arbitrary: p i)
  case Nil
  then show ?case by (subst Get_loop.simps) simp
next
  case (Cons a as)
  show ?case
  proof (cases "i = 0")
    case True
    with Cons.prems show ?thesis by (subst Get_loop.simps) simp
  next
    case False
    with Cons.prems have pos: "0 < i" and nxt: "chain (nodes s) (node_next (nodes s ! a)) as"
      and p: "p = Some a" "a < length (nodes s)"
      by auto
    have "Get_loop p i s = Get_loop (node_next (nodes s ! a)) (i - 1) s"
      using pos p by (subst Get_loop.simps) (simp add: node_at_def)
    also have "\<dots> = Inr (if nat (i - 1) < length as then Some (as ! nat (i - 1)) else None)"
      using nxt pos by (intro Cons.IH) auto
    also have "\<dots> = Inr (if nat i < length (a # as) then Some ((a # as) ! nat i) else None)"
      using pos by (auto simp: nth_Cons' nat_diff_distrib)
    finally show ?thesis .
  qed
qed

lemma Get_loop_nonpos: "i \<le> 0 \<Longrightarrow> Get_loop p i s = Inr p"
  by (subst Get_loop.simps) simp

section \<open>Append on a chain\<close>

lemma elems_Nil [simp]: "elems s [] = []"
  by (simp add: elems_def)

lemma elems_Cons [simp]: "elems s (a # as) = node_value (nodes s ! a) # elems s as"
  by (simp add: elems_def)

lemma elems_append [simp]: "elems s (as @ bs) = elems s as @ elems s bs"
  by (simp add: elems_def)

lemma length_elems [simp]: "length (elems s as) = length as"
  by (simp add: elems_def)

lemma elems_agree:
  "(\<forall>a \<in> set as. node_value (nodes s' ! a) = node_value (nodes s ! a)) \<Longrightarrow> elems s' as = elems s as"
  by (simp add: elems_def)

lemma chain_snoc:
  assumes "chain ns p as" and "as \<noteq> []" and "n = length ns"
  shows "chain ((ns @ [m])[last as := ((ns @ [m]) ! last as)\<lparr>node_next := Some n\<rparr>]) p (as @ [n])
           = (node_next m = None)"
  using assms
proof (induction as arbitrary: p)
  case Nil
  then show ?case by simp
next
  case (Cons a as)
  then have a: "p = Some a" "a < length ns" and rest: "chain ns (node_next (ns ! a)) as"
    by auto
  show ?case
  proof (cases "as = []")
    case True
    with a Cons.prems show ?thesis
      by (auto simp: nth_append)
  next
    case False
    have "a \<notin> set as" using rest by (rule chain_head_fresh)
    then have "a \<noteq> last as" using False by auto
    with Cons.IH [OF rest False Cons.prems(3)] a False show ?thesis
      by (simp add: nth_append)
  qed
qed

lemma Append_chain:
  assumes l: "list_at s l = Some (la, L)"
    and c: "chain (nodes s) (head L) as"
    and t: "as = [] \<or> tail L = Some (last as)"
  obtains s' L' where "Append l v s = Inr s'"
    and "list_at s' l = Some (la, L')"
    and "chain (nodes s') (head L') (as @ [length (nodes s)])"
    and "tail L' = Some (length (nodes s))"
    and "size_f L' = size_f L + 1"
    and "length (nodes s') = Suc (length (nodes s))"
    and "length (headers s') = length (headers s)"
    and "\<forall>b. b \<noteq> la \<longrightarrow> headers s' ! b = headers s ! b"
    and "\<forall>a. a < length (nodes s) \<longrightarrow> node_value (nodes s' ! a) = node_value (nodes s ! a)"
    and "\<forall>a. a < length (nodes s) \<longrightarrow> a \<notin> set as \<longrightarrow> nodes s' ! a = nodes s ! a"
    and "node_value (nodes s' ! length (nodes s)) = v"
proof (cases "as = []")
  case True
  with c have h: "head L = None" by simp
  from l have la: "l = Some la" "la < length (headers s)"
    by (auto simp: list_at_def split: option.splits if_splits)
  show ?thesis
    by (rule that [of "put_list la (L\<lparr>head := Some (length (nodes s)), tail := Some (length (nodes s)),
                size_f := size_f L + 1\<rparr>) (snd (newNode v s))"
              "L\<lparr>head := Some (length (nodes s)), tail := Some (length (nodes s)),
                size_f := size_f L + 1\<rparr>"])
       (use l h la True in \<open>auto simp: Append_def newNode_def list_at_def put_list_def nth_append\<close>)
next
  case False
  with c t obtain a0 as0 where as: "as = a0 # as0" and h: "head L = Some a0"
    and tl: "tail L = Some (last as)"
    by (cases as) auto
  from l have la: "l = Some la" "la < length (headers s)" "L = headers s ! la"
    by (auto simp: list_at_def split: option.splits if_splits)
  have lt: "last as < length (nodes s)"
    using c False by (auto intro: chain_bound)
  let ?n = "length (nodes s)"
  let ?s1 = "snd (newNode v s)"
  let ?s' = "put_list la (L\<lparr>tail := Some ?n, size_f := size_f L + 1\<rparr>) (put_next (last as) (Some ?n) ?s1)"
  have ch: "chain (nodes ?s') (head L) (as @ [?n])"
    using chain_snoc [OF c False refl, of "\<lparr>node_value = v, node_next = None\<rparr>"]
    by (simp add: put_list_def put_next_def newNode_def)
  have app: "Append l v s = Inr ?s'"
    using l h tl lt la
    by (simp add: Append_def newNode_def list_at_def node_at_def put_list_def put_next_def)
  show ?thesis
    by (rule that [of ?s' "L\<lparr>tail := Some ?n, size_f := size_f L + 1\<rparr>"])
       (use app ch la lt False in
          \<open>auto simp: list_at_def put_list_def put_next_def newNode_def nth_append nth_list_update\<close>)
qed

section \<open>Traversals on a chain\<close>

lemma String_loop_chain:
  "chain (nodes s) p as \<Longrightarrow>
     String_loop fmt p acc s = Some (Inr (acc @ join_space (map fmt (elems s as))))"
proof (induction as arbitrary: p acc)
  case Nil
  then show ?case by (subst String_loop.simps) simp
next
  case (Cons a as)
  then have a: "p = Some a" "a < length (nodes s)"
    and rest: "chain (nodes s) (node_next (nodes s ! a)) as"
    by auto
  have more: "(node_next (nodes s ! a) \<noteq> None) = (as \<noteq> [])"
    using rest by (cases as) auto
  have "String_loop fmt p acc s =
          String_loop fmt (node_next (nodes s ! a))
            ((acc @ fmt (node_value (nodes s ! a))) @ (if as \<noteq> [] then '' '' else '''')) s"
    using a more by (subst String_loop.simps) (simp add: node_at_def)
  also have "\<dots> = Some (Inr (((acc @ fmt (node_value (nodes s ! a))) @ (if as \<noteq> [] then '' '' else ''''))
                      @ join_space (map fmt (elems s as))))"
    by (rule Cons.IH [OF rest])
  also have "\<dots> = Some (Inr (acc @ join_space (map fmt (elems s (a # as)))))"
    by (cases as) auto
  finally show ?case .
qed

lemma String_is_list:
  assumes "is_list s l as"
  shows "String fmt l s = Some (Inr (render fmt (elems s as), s))"
proof -
  from assms obtain la L where l: "list_at s l = Some (la, L)" and c: "chain (nodes s) (head L) as"
    by (auto simp: is_list_def split: option.splits)
  show ?thesis
  proof (cases "head L")
    case None
    with c l show ?thesis by (simp add: String_def render_def)
  next
    case (Some a)
    with l String_loop_chain [OF c, of fmt "''[''"] show ?thesis
      by (simp add: String_def render_def)
  qed
qed

lemma Search_loop_absent:
  "chain (nodes s) p as \<Longrightarrow> \<forall>x \<in> set (elems s as). eq x v = Some False \<Longrightarrow>
     Search_loop eq v p pos s = Some (Inr (- 1))"
proof (induction as arbitrary: p pos)
  case Nil
  then show ?case by (subst Search_loop.simps) simp
next
  case (Cons a as)
  then have "Search_loop eq v p pos s = Search_loop eq v (node_next (nodes s ! a)) (pos + 1) s"
    by (subst Search_loop.simps) (auto simp: node_at_def)
  with Cons show ?case by auto
qed

lemma Search_loop_first:
  "chain (nodes s) p as \<Longrightarrow> i < length as \<Longrightarrow> eq (elems s as ! i) v = Some True \<Longrightarrow>
   (\<forall>j<i. eq (elems s as ! j) v = Some False) \<Longrightarrow>
     Search_loop eq v p pos s = Some (Inr (pos + int i))"
proof (induction as arbitrary: p pos i)
  case Nil
  then show ?case by simp
next
  case (Cons a as)
  then have a: "p = Some a" "a < length (nodes s)"
    and rest: "chain (nodes s) (node_next (nodes s ! a)) as"
    by auto
  show ?case
  proof (cases i)
    case 0
    with Cons.prems a show ?thesis
      by (subst Search_loop.simps) (simp add: node_at_def)
  next
    case (Suc k)
    with Cons.prems have k: "k < length as" "eq (elems s as ! k) v = Some True"
      by auto
    from Cons.prems(4) Suc have hd: "eq (node_value (nodes s ! a)) v = Some False"
      by (auto dest: spec [of _ 0])
    have before: "\<forall>j<k. eq (elems s as ! j) v = Some False"
    proof (intro allI impI)
      fix j assume "j < k"
      with Cons.prems(4) Suc have "eq (elems s (a # as) ! Suc j) v = Some False" by auto
      then show "eq (elems s as ! j) v = Some False" by simp
    qed
    have "Search_loop eq v p pos s = Search_loop eq v (node_next (nodes s ! a)) (pos + 1) s"
      using a hd by (subst Search_loop.simps) (simp add: node_at_def)
    also have "\<dots> = Some (Inr (pos + 1 + int k))"
      by (rule Cons.IH [OF rest k before])
    finally show ?thesis using Suc by simp
  qed
qed

lemma Search_is_list_first:
  assumes "is_list s l as" and "i < length as" and "eq (elems s as ! i) v = Some True"
    and "\<forall>j<i. eq (elems s as ! j) v = Some False"
  shows "Search eq l v s = Some (Inr (int i, s))"
proof -
  from assms(1) obtain la L where l: "list_at s l = Some (la, L)" and c: "chain (nodes s) (head L) as"
    by (auto simp: is_list_def split: option.splits)
  from c assms(2) have "head L \<noteq> None" by (cases as) auto
  with l Search_loop_first [where eq = eq and v = v and pos = 0, OF c assms(2,3,4)] show ?thesis
    by (simp add: Search_def)
qed

lemma Search_is_list_absent:
  assumes "is_list s l as" and "\<forall>x \<in> set (elems s as). eq x v = Some False"
  shows "Search eq l v s = Some (Inr (- 1, s))"
proof -
  from assms(1) obtain la L where l: "list_at s l = Some (la, L)" and c: "chain (nodes s) (head L) as"
    by (auto simp: is_list_def split: option.splits)
  with Search_loop_absent [where eq = eq and v = v and pos = 0, OF c assms(2)] show ?thesis
    by (simp add: Search_def)
qed

lemma Append_all_chain:
  assumes "list_at s l = Some (la, L)" and "chain (nodes s) (head L) as"
    and "as = [] \<or> tail L = Some (last as)"
  shows "\<exists>s' bs. Append_all l vs s = Inr s' \<and> is_list s' l (as @ bs) \<and> tail_is_last s' l (as @ bs)
           \<and> elems s' (as @ bs) = elems s as @ vs"
  using assms
proof (induction vs arbitrary: s L as)
  case Nil
  then show ?case
    by (auto simp: is_list_def tail_is_last_def intro!: exI [of _ "[]"])
next
  case (Cons v vs)
  obtain s1 L1 where app: "Append l v s = Inr s1"
    and l1: "list_at s1 l = Some (la, L1)"
    and c1: "chain (nodes s1) (head L1) (as @ [length (nodes s)])"
    and t1: "tail L1 = Some (length (nodes s))"
    and vals: "\<forall>a. a < length (nodes s) \<longrightarrow> node_value (nodes s1 ! a) = node_value (nodes s ! a)"
    and new: "node_value (nodes s1 ! length (nodes s)) = v"
    using Append_chain [OF Cons.prems, of v] by metis
  have old: "elems s1 as = elems s as"
    using vals chain_bound [OF Cons.prems(2)] by (intro elems_agree) auto
  from Cons.IH [OF l1 c1] t1
  obtain s' bs where "Append_all l vs s1 = Inr s'" "is_list s' l ((as @ [length (nodes s)]) @ bs)"
    "tail_is_last s' l ((as @ [length (nodes s)]) @ bs)"
    "elems s' ((as @ [length (nodes s)]) @ bs) = elems s1 (as @ [length (nodes s)]) @ vs"
    by auto
  with app old new show ?case
    by (intro exI [of _ s'] exI [of _ "length (nodes s) # bs"]) simp
qed

lemma NewLinkedList_fresh:
  "NewLinkedList s = (l, s1) \<Longrightarrow>
     list_at s1 l = Some (length (headers s), \<lparr>head = None, tail = None, size_f = 0\<rparr>)"
  by (auto simp: NewLinkedList_def list_at_def)

section \<open>Unlinking and linking chains\<close>

lemma node_value_update_next [simp]:
  "node_value (ns[i := (ns ! i)\<lparr>node_next := q\<rparr>] ! a) = node_value (ns ! a)"
  by (cases "i < length ns") (auto simp: nth_list_update list_update_beyond)

lemma chain_link:
  "chain ns p as \<Longrightarrow> as \<noteq> [] \<Longrightarrow> chain ns q bs \<Longrightarrow> set as \<inter> set bs = {} \<Longrightarrow>
     chain (ns[last as := (ns ! last as)\<lparr>node_next := q\<rparr>]) p (as @ bs)"
proof (induction as arbitrary: p)
  case Nil
  then show ?case by simp
next
  case (Cons a as)
  then have a: "p = Some a" "a < length ns" and rest: "chain ns (node_next (ns ! a)) as"
    by auto
  show ?case
  proof (cases "as = []")
    case True
    from Cons.prems(4) have "a \<notin> set bs" by auto
    then have "chain (ns[a := (ns ! a)\<lparr>node_next := q\<rparr>]) q bs"
      using Cons.prems(3) by (simp add: chain_def seg_update_other)
    with a True show ?thesis by simp
  next
    case False
    have "a \<notin> set as" using rest by (rule chain_head_fresh)
    then have ne: "a \<noteq> last as" using False by auto
    from Cons.prems(4) have "set as \<inter> set bs = {}" by auto
    from Cons.IH [OF rest False Cons.prems(3) this] a False ne show ?thesis
      by simp
  qed
qed

lemma chain_cut:
  "chain ns p (as @ [n]) \<Longrightarrow> as \<noteq> [] \<Longrightarrow>
     chain (ns[last as := (ns ! last as)\<lparr>node_next := None\<rparr>]) p as"
proof (induction as arbitrary: p)
  case Nil
  then show ?case by simp
next
  case (Cons a as)
  then have a: "p = Some a" "a < length ns" and rest: "chain ns (node_next (ns ! a)) (as @ [n])"
    by auto
  show ?case
  proof (cases "as = []")
    case True
    with a show ?thesis by simp
  next
    case False
    have "a \<notin> set (as @ [n])" using rest by (rule chain_head_fresh)
    then have ne: "a \<noteq> last as" using False by auto
    from Cons.IH [OF rest False] a False ne show ?thesis
      by simp
  qed
qed

lemma Remove_loop_last:
  "chain (nodes s) (Some c) (c # as @ [n]) \<Longrightarrow> \<forall>x \<in> set (elems s as). eq x v = Some False \<Longrightarrow>
   eq (node_value (nodes s ! n)) v = Some True \<Longrightarrow>
     Remove_loop eq la v c s = Some (Inr (dec_size la (put_next (last (c # as)) None s)))"
proof (induction as arbitrary: c)
  case Nil
  then show ?case
    by (subst Remove_loop.simps) (simp add: node_at_def)
next
  case (Cons a as)
  then have "Remove_loop eq la v c s = Remove_loop eq la v a s"
    by (subst Remove_loop.simps) (auto simp: node_at_def)
  also have "\<dots> = Some (Inr (dec_size la (put_next (last (a # as)) None s)))"
    using Cons.prems by (intro Cons.IH) auto
  finally show ?case by simp
qed

lemma Remove_last:
  assumes l: "list_at s l = Some (la, L)"
    and c: "chain (nodes s) (head L) (as @ [n])"
    and v: "\<forall>x \<in> set (elems s as). eq x v = Some False"
      "eq (node_value (nodes s ! n)) v = Some True"
  obtains s' where "Remove eq l v s = Some (Inr s')" and "is_list s' l as"
    and "elems s' as = elems s as"
proof (cases as)
  case Nil
  from l have la: "l = Some la" "la < length (headers s)"
    by (auto simp: list_at_def split: option.splits if_splits)
  show ?thesis
    by (rule that [of "put_list la (L\<lparr>head := None, size_f := size_f L - 1\<rparr>) s"])
       (use Nil l c v la in \<open>auto simp: Remove_def node_at_def is_list_def list_at_def put_list_def\<close>)
next
  case (Cons a as')
  from l have la: "l = Some la" "la < length (headers s)"
    by (auto simp: list_at_def split: option.splits if_splits)
  from c Cons have h: "head L = Some a" "a < length (nodes s)"
    and c': "chain (nodes s) (Some a) (a # as' @ [n])"
    by auto
  from v Cons have hv: "eq (node_value (nodes s ! a)) v = Some False"
    and v': "\<forall>x \<in> set (elems s as'). eq x v = Some False"
    by auto
  let ?s' = "dec_size la (put_next (last as) None s)"
  have run: "Remove eq l v s = Some (Inr ?s')"
    using l h hv Remove_loop_last [where eq = eq and v = v and la = la, OF c' v' v(2)] Cons
    by (simp add: Remove_def node_at_def)
  have "chain (nodes ?s') (head L) as"
    using chain_cut [OF c] Cons by (simp add: dec_size_def put_list_def put_next_def)
  then have il: "is_list ?s' l as"
    using la l by (auto simp: is_list_def list_at_def dec_size_def put_list_def put_next_def)
  have el: "elems ?s' as = elems s as"
    by (intro elems_agree) (simp add: dec_size_def put_list_def put_next_def)
  from run il el show ?thesis by (rule that)
qed

section \<open>The loops of IntercalarListas\<close>

lemma interleave_alternate:
  "interleave xs ys = alternate xs ys @ drop (length ys) xs @ drop (length xs) ys"
  by (induction xs ys rule: interleave.induct) auto

lemma result_inv_Append:
  assumes "result_inv s st r cs"
  obtains st' where "Append (Some r) v st = Inr st'"
    and "result_inv s st' r (cs @ [length (nodes st)])"
    and "elems st' (cs @ [length (nodes st)]) = elems st cs @ [v]"
proof -
  from assms have l: "list_at st (Some r) = Some (r, headers st ! r)"
    and c: "chain (nodes st) (head (headers st ! r)) cs"
    and t: "cs = [] \<or> tail (headers st ! r) = Some (last cs)"
    by (auto simp: result_inv_def list_at_def)
  obtain st' L' where app: "Append (Some r) v st = Inr st'"
    and l': "list_at st' (Some r) = Some (r, L')"
    and c': "chain (nodes st') (head L') (cs @ [length (nodes st)])"
    and t': "tail L' = Some (length (nodes st))"
    and ln: "length (nodes st') = Suc (length (nodes st))"
    and ll: "length (headers st') = length (headers st)"
    and other: "\<forall>b. b \<noteq> r \<longrightarrow> headers st' ! b = headers st ! b"
    and vals: "\<forall>a. a < length (nodes st) \<longrightarrow> node_value (nodes st' ! a) = node_value (nodes st ! a)"
    and same: "\<forall>a. a < length (nodes st) \<longrightarrow> a \<notin> set cs \<longrightarrow> nodes st' ! a = nodes st ! a"
    and new: "node_value (nodes st' ! length (nodes st)) = v"
    using Append_chain [OF l c t, of v] by metis
  from l' have L': "L' = headers st' ! r"
    by (auto simp: list_at_def split: if_splits)
  have old: "elems st' cs = elems st cs"
    using vals chain_bound [OF c] by (intro elems_agree) auto
  have keep: "\<forall>a<length (nodes s). nodes st' ! a = nodes s ! a"
  proof (intro allI impI)
    fix a assume a: "a < length (nodes s)"
    with assms have "a < length (nodes st)" "a \<notin> set cs" "nodes st ! a = nodes s ! a"
      by (auto simp: result_inv_def)
    with same show "nodes st' ! a = nodes s ! a" by simp
  qed
  have inv: "result_inv s st' r (cs @ [length (nodes st)])"
    using assms c' t' ln ll other keep L'
    by (auto simp: result_inv_def)
  from app inv show ?thesis
    by (rule that) (simp add: old new)
qed

lemma result_inv_old_node:
  "result_inv s st r cs \<Longrightarrow> a < length (nodes s) \<Longrightarrow>
     node_at st (Some a) = Some (a, nodes s ! a)"
  by (auto simp: result_inv_def node_at_def)

lemma result_inv_source:
  assumes "result_inv s st r cs" and "list_at s l = Some (la, L)"
    and "chain (nodes s) (head L) as"
  shows "is_list st l as \<and> elems st as = elems s as"
proof -
  from assms(2) have la: "l = Some la" "la < length (headers s)" "L = headers s ! la"
    by (auto simp: list_at_def split: option.splits if_splits)
  with assms(1) have l': "list_at st l = Some (la, L)"
    by (auto simp: result_inv_def list_at_def)
  have same: "\<forall>a \<in> set as. nodes st ! a = nodes s ! a"
    using assms(1) chain_bound [OF assms(3)] by (auto simp: result_inv_def)
  have len: "length (nodes s) \<le> length (nodes st)"
    using assms(1) by (simp add: result_inv_def)
  from assms(3) len same have "chain (nodes st) (head L) as"
    unfolding chain_def by (rule seg_agree)
  moreover have "elems st as = elems s as"
    using same by (intro elems_agree) simp
  ultimately show ?thesis using l' by (simp add: is_list_def)
qed

lemma Intercalar_rest_chain:
  "result_inv s st r cs \<Longrightarrow> chain (nodes s) p as \<Longrightarrow>
     \<exists>st' ds. Intercalar_rest (Some r) p st = Some (Inr st') \<and> result_inv s st' r (cs @ ds)
        \<and> elems st' (cs @ ds) = elems st cs @ elems s as"
proof (induction as arbitrary: p st cs)
  case Nil
  then show ?case
    by (subst Intercalar_rest.simps) (auto intro!: exI [of _ "[]"])
next
  case (Cons a as)
  then have a: "p = Some a" "a < length (nodes s)"
    and rest: "chain (nodes s) (node_next (nodes s ! a)) as"
    by auto
  obtain st1 where app: "Append (Some r) (node_value (nodes s ! a)) st = Inr st1"
    and inv1: "result_inv s st1 r (cs @ [length (nodes st)])"
    and el1: "elems st1 (cs @ [length (nodes st)]) = elems st cs @ [node_value (nodes s ! a)]"
    using result_inv_Append [OF Cons.prems(1)] by blast
  from inv1 a have same: "nodes st1 ! a = nodes s ! a"
    by (simp add: result_inv_def)
  have step: "Intercalar_rest (Some r) p st = Intercalar_rest (Some r) (node_next (nodes s ! a)) st1"
    using a app same result_inv_old_node [OF Cons.prems(1) a(2)]
    by (subst Intercalar_rest.simps) simp
  from Cons.IH [OF inv1 rest]
  obtain st' ds where "Intercalar_rest (Some r) (node_next (nodes s ! a)) st1 = Some (Inr st')"
    "result_inv s st' r ((cs @ [length (nodes st)]) @ ds)"
    "elems st' ((cs @ [length (nodes st)]) @ ds) = elems st1 (cs @ [length (nodes st)]) @ elems s as"
    by blast
  with step el1 show ?case
    by (intro exI [of _ st'] exI [of _ "length (nodes st) # ds"]) simp
qed

lemma Intercalar_both_chain:
  "result_inv s st r cs \<Longrightarrow> chain (nodes s) p as \<Longrightarrow> chain (nodes s) q bs \<Longrightarrow>
     \<exists>st' ds p' q'. Intercalar_both (Some r) p q st = Some (Inr (p', q', st'))
        \<and> result_inv s st' r (cs @ ds)
        \<and> elems st' (cs @ ds) = elems st cs @ alternate (elems s as) (elems s bs)
        \<and> chain (nodes s) p' (drop (length bs) as) \<and> chain (nodes s) q' (drop (length as) bs)"
proof (induction as arbitrary: bs p q st cs)
  case Nil
  then show ?case
    by (subst Intercalar_both.simps) (auto intro!: exI [of _ "[]"])
next
  case (Cons a as)
  show ?case
  proof (cases bs)
    case Nil
    with Cons.prems show ?thesis
      by (subst Intercalar_both.simps) (auto intro!: exI [of _ "[]"])
  next
    case (Cons b bs')
    with Cons.prems have a: "p = Some a" "a < length (nodes s)"
      and resta: "chain (nodes s) (node_next (nodes s ! a)) as"
      and b: "q = Some b" "b < length (nodes s)"
      and restb: "chain (nodes s) (node_next (nodes s ! b)) bs'"
      by auto
    obtain st1 where app1: "Append (Some r) (node_value (nodes s ! a)) st = Inr st1"
      and inv1: "result_inv s st1 r (cs @ [length (nodes st)])"
      and el1: "elems st1 (cs @ [length (nodes st)]) = elems st cs @ [node_value (nodes s ! a)]"
      using result_inv_Append [OF Cons.prems(1)] by blast
    obtain st2 where app2: "Append (Some r) (node_value (nodes s ! b)) st1 = Inr st2"
      and inv2: "result_inv s st2 r ((cs @ [length (nodes st)]) @ [length (nodes st1)])"
      and el2: "elems st2 ((cs @ [length (nodes st)]) @ [length (nodes st1)]) =
                  elems st1 (cs @ [length (nodes st)]) @ [node_value (nodes s ! b)]"
      using result_inv_Append [OF inv1] by blast
    from inv2 a b have same: "nodes st2 ! a = nodes s ! a" "nodes st2 ! b = nodes s ! b"
      by (simp_all add: result_inv_def)
    have step: "Intercalar_both (Some r) p q st =
                  Intercalar_both (Some r) (node_next (nodes s ! a)) (node_next (nodes s ! b)) st2"
      using a b app1 app2 same result_inv_old_node [OF Cons.prems(1) a(2)]
        result_inv_old_node [OF inv1 b(2)]
      by (subst Intercalar_both.simps) simp
    from Cons.IH [OF inv2 resta restb]
    obtain st' ds p' q' where
      "Intercalar_both (Some r) (node_next (nodes s ! a)) (node_next (nodes s ! b)) st2 =
         Some (Inr (p', q', st'))"
      "result_inv s st' r (((cs @ [length (nodes st)]) @ [length (nodes st1)]) @ ds)"
      "elems st' (((cs @ [length (nodes st)]) @ [length (nodes st1)]) @ ds) =
         elems st2 ((cs @ [length (nodes st)]) @ [length (nodes st1)])
           @ alternate (elems s as) (elems s bs')"
      "chain (nodes s) p' (drop (length bs') as)" "chain (nodes s) q' (drop (length as) bs')"
      by blast
    with step el1 el2 Cons show ?thesis
      by (intro exI [of _ st'] exI [of _ "length (nodes st) # length (nodes st1) # ds"]
            exI [of _ p'] exI [of _ q']) simp
  qed
qed

lemma fresh_tail_Append:
  "fresh_tail s st r \<Longrightarrow> Append (Some r) v st = Inr st' \<Longrightarrow> fresh_tail s st' r"
  by (auto simp: fresh_tail_def Append_def newNode_def list_at_def node_at_def put_list_def
        put_next_def nth_append nth_list_update split: if_splits option.splits)

lemma fresh_tail_rest_aux:
  assumes "Intercalar_rest res0 p0 st0 = Some y0"
  shows "\<forall>r st'. res0 = Some r \<longrightarrow> fresh_tail s st0 r \<longrightarrow> y0 = Inr st' \<longrightarrow> fresh_tail s st' r"
proof (rule Intercalar_rest.raw_induct [where P = "\<lambda>res p st y.
    \<forall>r st'. res = Some r \<longrightarrow> fresh_tail s st r \<longrightarrow> y = Inr st' \<longrightarrow> fresh_tail s st' r",
    OF _ assms], goal_cases)
  case (1 rest res p st y)
  show ?case
  proof (intro allI impI)
    fix r st'
    assume r: "res = Some r" and inv: "fresh_tail s st r" and y: "y = Inr st'"
    show "fresh_tail s st' r"
    proof (cases p)
      case None
      with 1(2) y inv show ?thesis by simp
    next
      case (Some c)
      with 1(2) y obtain cn st1 where "node_at st p = Some (c, cn)"
        and app: "Append res (node_value cn) st = Inr st1"
        and rec: "rest res (node_next (nodes st1 ! c)) st1 = Some y"
        by (auto simp: node_at_def split: option.splits sum.splits if_splits)
      from inv app r have "fresh_tail s st1 r"
        by (auto dest: fresh_tail_Append)
      with 1(1) [OF rec] r y show ?thesis by blast
    qed
  qed
qed

lemma fresh_tail_both_aux:
  assumes "Intercalar_both res0 p0 q0 st0 = Some y0"
  shows "\<forall>r p' q' st'. res0 = Some r \<longrightarrow> fresh_tail s st0 r \<longrightarrow> y0 = Inr (p', q', st')
        \<longrightarrow> fresh_tail s st' r"
proof (rule Intercalar_both.raw_induct [where P = "\<lambda>res p q st y.
    \<forall>r p' q' st'. res = Some r \<longrightarrow> fresh_tail s st r \<longrightarrow> y = Inr (p', q', st')
        \<longrightarrow> fresh_tail s st' r", OF _ assms], goal_cases)
  case (1 both res p q st y)
  show ?case
  proof (intro allI impI)
    fix r p' q' st'
    assume r: "res = Some r" and inv: "fresh_tail s st r" and y: "y = Inr (p', q', st')"
    show "fresh_tail s st' r"
    proof (cases "p \<noteq> None \<and> q \<noteq> None")
      case False
      with 1(2) y inv show ?thesis by auto
    next
      case True
      with 1(2) y obtain c1 n1 st1 c2 n2 st2 where "node_at st p = Some (c1, n1)"
        and app1: "Append res (node_value n1) st = Inr st1"
        and "node_at st1 q = Some (c2, n2)"
        and app2: "Append res (node_value n2) st1 = Inr st2"
        and rec: "both res (node_next (nodes st2 ! c1)) (node_next (nodes st2 ! c2)) st2 = Some y"
        by (auto split: option.splits sum.splits if_splits)
      from inv app1 r have "fresh_tail s st1 r"
        by (auto dest: fresh_tail_Append)
      with app2 r have "fresh_tail s st2 r"
        by (auto dest: fresh_tail_Append)
      with 1(1) [OF rec] r y show ?thesis by blast
    qed
  qed
qed

lemma IntercalarListas_frame:
  assumes "IntercalarListas l l1 l2 s = Some (Inr (res, s'))"
  shows "take (length (headers s)) (headers s') = headers s \<and> take (length (nodes s)) (nodes s') = nodes s"
proof (cases "l1 = None \<or> l2 = None")
  case True
  with assms show ?thesis by (auto simp: IntercalarListas_def)
next
  case False
  let ?r = "length (headers s)"
  let ?s0 = "s\<lparr>headers := headers s @ [\<lparr>head = None, tail = None, size_f = 0\<rparr>]\<rparr>"
  have inv0: "fresh_tail s ?s0 ?r"
    by (simp add: fresh_tail_def nth_append)
  from assms False obtain L1 L2 :: LinkedList and p' q' st1 st2 where
    both: "Intercalar_both (Some ?r) (head L1) (head L2) ?s0 = Some (Inr (p', q', st1))"
    and rest1: "Intercalar_rest (Some ?r) p' st1 = Some (Inr st2)"
    and rest2: "Intercalar_rest (Some ?r) q' st2 = Some (Inr s')"
    by (auto simp: IntercalarListas_def NewLinkedList_def split: option.splits sum.splits)
  from fresh_tail_both_aux [OF both, of s] inv0 have "fresh_tail s st1 ?r" by blast
  with fresh_tail_rest_aux [OF rest1, of s] have "fresh_tail s st2 ?r" by blast
  with fresh_tail_rest_aux [OF rest2, of s] have inv: "fresh_tail s s' ?r" by blast
  have "take ?r (headers s') = headers s"
    using inv by (intro nth_equalityI) (auto simp: fresh_tail_def)
  moreover have "take (length (nodes s)) (nodes s') = nodes s"
    using inv by (intro nth_equalityI) (auto simp: fresh_tail_def)
  ultimately show ?thesis ..
qed

lemma ConcatenarListas_frame:
  assumes "ConcatenarListas l l1 l2 s = Inr (res, s')"
  shows "length (headers s') = length (headers s) \<and> length (nodes s') = length (nodes s)
       \<and> (\<forall>b. l1 \<noteq> Some b \<longrightarrow> headers s' ! b = headers s ! b)
       \<and> (\<forall>a. nodes s' ! a \<noteq> nodes s ! a \<longrightarrow>
             (\<exists>a1 L1. list_at s l1 = Some (a1, L1) \<and> tail L1 = Some a))"
  using assms
  by (auto simp: ConcatenarListas_def list_at_def node_at_def put_list_def put_next_def Let_def
        nth_list_update split: option.splits if_splits)

lemmas heap_ops =
  NewLinkedList_def empty_heap_def Append_def Prepend_def newNode_def list_at_def node_at_def
  put_list_def put_next_def inc_size_def dec_size_def value_eq_def

section \<open>Positional lookup\<close>

text \<open>
  C1. The claim: on a non-empty list, \<open>Get\<close> with a negative position fails with
  \<open>InvalidPosition\<close> and returns no value. The code does not: the loop of
  \<open>Get\<close> runs only while \<open>position > 0\<close>, so for a negative position it does
  not run, \<open>current\<close> is still the head, and \<open>Get\<close> returns the head's value
  with a \<open>nil\<close> error. Here: the list \<open>[7]\<close> built by \<open>NewLinkedList\<close> and
  \<open>Append(7)\<close>, then \<open>Get(-1)\<close>.
\<close>

theorem Get_negative_position_returns_head:
  "Append (Some 0) (7::int) (snd (NewLinkedList empty_heap)) =
     Inr \<lparr>nodes = [\<lparr>node_value = 7, node_next = None\<rparr>],
          headers = [\<lparr>head = Some 0, tail = Some 0, size_f = 1\<rparr>]\<rparr>
   \<and> Get (Some 0) (- 1)
         \<lparr>nodes = [\<lparr>node_value = 7::int, node_next = None\<rparr>],
          headers = [\<lparr>head = Some 0, tail = Some 0, size_f = 1\<rparr>]\<rparr> =
       Inr (Inr 7,
         \<lparr>nodes = [\<lparr>node_value = 7, node_next = None\<rparr>],
          headers = [\<lparr>head = Some 0, tail = Some 0, size_f = 1\<rparr>]\<rparr>)"
  by (simp add: Get_def Get_loop.simps heap_ops)

text \<open>
  C7. For a list whose chain has \<open>n\<close> nodes: \<open>Get(i)\<close> with \<open>0 \<le> i < n\<close>
  returns the value of the \<open>i\<close>-th node and no error; \<open>Get\<close> on a list with no
  nodes fails with \<open>EmptyList\<close>; \<open>Get(i)\<close> with \<open>i \<ge> n\<close> on a non-empty list
  fails with \<open>InvalidPosition\<close>; the heap after the call is the heap before it.
\<close>

theorem Get_by_position:
  assumes "is_list s l as"
  shows "(0 \<le> i \<and> i < int (length as) \<longrightarrow> Get l i s = Inr (Inr (elems s as ! nat i), s))
       \<and> (as = [] \<longrightarrow> Get l i s = Inr (Inl EmptyList, s))
       \<and> (as \<noteq> [] \<and> int (length as) \<le> i \<longrightarrow> Get l i s = Inr (Inl InvalidPosition, s))"
proof -
  from assms obtain la L where l: "list_at s l = Some (la, L)"
    and c: "chain (nodes s) (head L) as"
    by (auto simp: is_list_def split: option.splits)
  have empty: "Get l i s = Inr (Inl EmptyList, s)" if "as = []"
    using that c l by (simp add: Get_def)
  have inside: "Get l i s = Inr (Inr (elems s as ! nat i), s)" if "0 \<le> i" "i < int (length as)"
  proof -
    from that have n: "nat i < length as" by simp
    then have "as \<noteq> []" by auto
    with c have h: "head L \<noteq> None" by (cases as) auto
    have "as ! nat i < length (nodes s)"
      using c n by (auto intro: chain_bound)
    with l h n Get_loop_chain [OF c that(1)] show ?thesis
      by (simp add: Get_def node_at_def elems_def)
  qed
  have beyond: "Get l i s = Inr (Inl InvalidPosition, s)" if "as \<noteq> []" "int (length as) \<le> i"
  proof -
    from that c have h: "head L \<noteq> None" by (cases as) auto
    from that have "0 \<le> i" "\<not> nat i < length as" by auto
    with l h Get_loop_chain [OF c, of i] show ?thesis
      by (simp add: Get_def)
  qed
  from empty inside beyond show ?thesis by blast
qed

theorem Get_by_position_witness:
  "is_list \<lparr>nodes = [\<lparr>node_value = 7::int, node_next = Some 1\<rparr>, \<lparr>node_value = 9, node_next = None\<rparr>],
            headers = [\<lparr>head = Some 0, tail = Some 1, size_f = 2\<rparr>, \<lparr>head = None, tail = None, size_f = 0\<rparr>]\<rparr>
     (Some 0) [0, 1]
   \<and> Get (Some 0) 1
       \<lparr>nodes = [\<lparr>node_value = 7::int, node_next = Some 1\<rparr>, \<lparr>node_value = 9, node_next = None\<rparr>],
        headers = [\<lparr>head = Some 0, tail = Some 1, size_f = 2\<rparr>, \<lparr>head = None, tail = None, size_f = 0\<rparr>]\<rparr> =
     Inr (Inr 9,
       \<lparr>nodes = [\<lparr>node_value = 7::int, node_next = Some 1\<rparr>, \<lparr>node_value = 9, node_next = None\<rparr>],
        headers = [\<lparr>head = Some 0, tail = Some 1, size_f = 2\<rparr>, \<lparr>head = None, tail = None, size_f = 0\<rparr>]\<rparr>)
   \<and> Get (Some 0) 2
       \<lparr>nodes = [\<lparr>node_value = 7::int, node_next = Some 1\<rparr>, \<lparr>node_value = 9, node_next = None\<rparr>],
        headers = [\<lparr>head = Some 0, tail = Some 1, size_f = 2\<rparr>, \<lparr>head = None, tail = None, size_f = 0\<rparr>]\<rparr> =
     Inr (Inl InvalidPosition,
       \<lparr>nodes = [\<lparr>node_value = 7::int, node_next = Some 1\<rparr>, \<lparr>node_value = 9, node_next = None\<rparr>],
        headers = [\<lparr>head = Some 0, tail = Some 1, size_f = 2\<rparr>, \<lparr>head = None, tail = None, size_f = 0\<rparr>]\<rparr>)
   \<and> is_list \<lparr>nodes = [\<lparr>node_value = 7::int, node_next = Some 1\<rparr>, \<lparr>node_value = 9, node_next = None\<rparr>],
            headers = [\<lparr>head = Some 0, tail = Some 1, size_f = 2\<rparr>, \<lparr>head = None, tail = None, size_f = 0\<rparr>]\<rparr>
     (Some 1) []
   \<and> Get (Some 1) 0
       \<lparr>nodes = [\<lparr>node_value = 7::int, node_next = Some 1\<rparr>, \<lparr>node_value = 9, node_next = None\<rparr>],
        headers = [\<lparr>head = Some 0, tail = Some 1, size_f = 2\<rparr>, \<lparr>head = None, tail = None, size_f = 0\<rparr>]\<rparr> =
     Inr (Inl EmptyList,
       \<lparr>nodes = [\<lparr>node_value = 7::int, node_next = Some 1\<rparr>, \<lparr>node_value = 9, node_next = None\<rparr>],
        headers = [\<lparr>head = Some 0, tail = Some 1, size_f = 2\<rparr>, \<lparr>head = None, tail = None, size_f = 0\<rparr>]\<rparr>)"
proof -
  let ?s = "\<lparr>nodes = [\<lparr>node_value = 7::int, node_next = Some 1\<rparr>, \<lparr>node_value = 9, node_next = None\<rparr>],
        headers = [\<lparr>head = Some 0, tail = Some 1, size_f = 2\<rparr>, \<lparr>head = None, tail = None, size_f = 0\<rparr>]\<rparr>"
  have a: "is_list ?s (Some 0) [0, 1]" and b: "is_list ?s (Some 1) []"
    by (simp_all add: is_list_def list_at_def)
  from a b Get_by_position [OF a, of 1] Get_by_position [OF a, of 2] Get_by_position [OF b, of 0]
  show ?thesis by (simp add: elems_def)
qed

section \<open>Invalid inputs\<close>

text \<open>
  C2. The claim: every operation other than \<open>Get\<close>, \<open>ConcatenarListas\<close>
  included, completes without a raised failure on every invalid input, an absent
  (\<open>nil\<close>) list reference included. \<open>IntercalarListas\<close> tests both arguments
  against \<open>nil\<close> first; \<open>ConcatenarListas\<close> does not, and its first statement
  reads \<open>l1.head\<close>: with \<open>l1 = nil\<close> the call panics, whatever the receiver, the
  second list and the heap.
\<close>

theorem ConcatenarListas_nil_list1_panics:
  "ConcatenarListas l None l2 s = Inl NilDereference"
  by (simp add: ConcatenarListas_def list_at_def)

text \<open>
  C4. The claim: \<open>InsertAt\<close> with a position beyond the end of the chain changes
  nothing, the cached \<open>size\<close> included. The traversal loop of \<open>InsertAt\<close>
  executes \<open>l.size++\<close> at every step, so on the list \<open>[7]\<close> the call
  \<open>InsertAt(9, 3)\<close> leaves the chain, \<open>head\<close> and \<open>tail\<close> as they were and
  moves \<open>size\<close> from 1 to 2. (The second node of the store is the node
  \<open>InsertAt\<close> allocates before the walk; no link reaches it.)
\<close>

theorem InsertAt_past_end_changes_size:
  "InsertAt (Some 0) 9 3
     \<lparr>nodes = [\<lparr>node_value = 7::int, node_next = None\<rparr>],
      headers = [\<lparr>head = Some 0, tail = Some 0, size_f = 1\<rparr>]\<rparr> =
   Inr \<lparr>nodes = [\<lparr>node_value = 7, node_next = None\<rparr>, \<lparr>node_value = 9, node_next = None\<rparr>],
        headers = [\<lparr>head = Some 0, tail = Some 0, size_f = 2\<rparr>]\<rparr>"
  by (simp add: InsertAt_def InsertAt_loop.simps heap_ops)

section \<open>The tail reference\<close>

text \<open>
  C3. The claim: after every sequence of public operations on a new list,
  \<open>head\<close> is \<open>nil\<close> exactly when \<open>tail\<close> is, and \<open>tail.next\<close> is \<open>nil\<close>.
  \<open>Remove\<close> never assigns \<open>tail\<close>: after \<open>Append(7)\<close> and \<open>Remove(7)\<close> on
  a new list, \<open>head\<close> is \<open>nil\<close> and \<open>tail\<close> still refers to the removed node.
\<close>

theorem Remove_leaves_tail_behind:
  "Append (Some 0) (7::int) (snd (NewLinkedList empty_heap)) =
     Inr \<lparr>nodes = [\<lparr>node_value = 7, node_next = None\<rparr>],
          headers = [\<lparr>head = Some 0, tail = Some 0, size_f = 1\<rparr>]\<rparr>
   \<and> Remove value_eq (Some 0) 7
         \<lparr>nodes = [\<lparr>node_value = 7::int, node_next = None\<rparr>],
          headers = [\<lparr>head = Some 0, tail = Some 0, size_f = 1\<rparr>]\<rparr> =
       Some (Inr
         \<lparr>nodes = [\<lparr>node_value = 7, node_next = None\<rparr>],
          headers = [\<lparr>head = None, tail = Some 0, size_f = 0\<rparr>]\<rparr>)"
  by (simp add: Remove_def heap_ops)

text \<open>
  \<open>InsertAt\<close> never assigns \<open>tail\<close> either: inserting after the last node
  leaves \<open>tail\<close> on the node before the new one, whose \<open>next\<close> is no longer
  \<open>nil\<close>.
\<close>

lemma InsertAt_at_end_leaves_tail_behind:
  "InsertAt (Some 0) 9 1
     \<lparr>nodes = [\<lparr>node_value = 7::int, node_next = None\<rparr>],
      headers = [\<lparr>head = Some 0, tail = Some 0, size_f = 1\<rparr>]\<rparr> =
   Inr \<lparr>nodes = [\<lparr>node_value = 7, node_next = Some 1\<rparr>, \<lparr>node_value = 9, node_next = None\<rparr>],
        headers = [\<lparr>head = Some 0, tail = Some 0, size_f = 1\<rparr>]\<rparr>"
  by (simp add: InsertAt_def InsertAt_loop.simps heap_ops)

section \<open>Appending, rendering and searching\<close>

text \<open>
  C6, as amended. For every sequence of values \<open>vs\<close> appended in order to a new
  list, no call panics and \<open>String\<close> yields \<open>[v1 v2 ... vn]\<close> (\<open>[]\<close> for no
  values). \<open>Search(vi)\<close> returns \<open>i - 1\<close> for every \<open>vi\<close> such that \<open>vi == vi\<close>
  is true and \<open>vj == vi\<close> is false for every earlier \<open>vj\<close>: \<open>Search\<close> returns the
  position of the first node whose value compares equal. On an element type where
  \<open>==\<close> is equality that is every \<open>vi\<close> that does not occur earlier in the
  sequence. Positions are zero-based here: \<open>vs ! i\<close> is the spec's \<open>v(i+1)\<close>.
\<close>

theorem Append_all_String_Search:
  assumes "NewLinkedList s0 = (l, s1)"
  shows "\<exists>s. Append_all l vs s1 = Inr s \<and> String fmt l s = Some (Inr (render fmt vs, s))
            \<and> (\<forall>i<length vs.
                  eq (vs ! i) (vs ! i) = Some True \<and> (\<forall>j<i. eq (vs ! j) (vs ! i) = Some False)
                  \<longrightarrow> Search eq l (vs ! i) s = Some (Inr (int i, s)))"
proof -
  from Append_all_chain [OF NewLinkedList_fresh [OF assms], of "[]" vs]
  obtain s bs where run: "Append_all l vs s1 = Inr s" and il: "is_list s l bs"
    and el: "elems s bs = vs"
    by auto
  have len: "length bs = length vs" using el [symmetric] by simp
  have "String fmt l s = Some (Inr (render fmt vs, s))"
    using String_is_list [OF il, of fmt] el by simp
  moreover have "\<forall>i<length vs.
      eq (vs ! i) (vs ! i) = Some True \<and> (\<forall>j<i. eq (vs ! j) (vs ! i) = Some False)
      \<longrightarrow> Search eq l (vs ! i) s = Some (Inr (int i, s))"
    using Search_is_list_first [where eq = eq, OF il] el len by auto
  ultimately show ?thesis using run by blast
qed

lemma fmt_int_digit [simp]: "0 \<le> i \<Longrightarrow> i < 10 \<Longrightarrow> fmt_int i = [digit_char (nat i)]"
  by (simp add: fmt_int_def fmt_nat.simps)

theorem Append_all_String_Search_witness:
  "NewLinkedList (empty_heap :: int heap) =
     (Some 0, \<lparr>nodes = [], headers = [\<lparr>head = None, tail = None, size_f = 0\<rparr>]\<rparr>)
   \<and> value_eq (3::int) 3 = Some True \<and> value_eq (4::int) 4 = Some True
   \<and> value_eq (3::int) 4 = Some False
   \<and> (\<exists>s. Append_all (Some 0) [3, 4]
              \<lparr>nodes = [], headers = [\<lparr>head = None, tail = None, size_f = 0\<rparr>]\<rparr> = Inr s
          \<and> String fmt_int (Some 0) s = Some (Inr (''[3 4]'', s))
          \<and> Search value_eq (Some 0) 3 s = Some (Inr (0, s))
          \<and> Search value_eq (Some 0) 4 s = Some (Inr (1, s)))"
proof -
  let ?s1 = "\<lparr>nodes = [], headers = [\<lparr>head = None, tail = None, size_f = 0\<rparr>]\<rparr> :: int heap"
  have new: "NewLinkedList (empty_heap :: int heap) = (Some 0, ?s1)"
    by (simp add: NewLinkedList_def empty_heap_def)
  from Append_all_String_Search [OF new, of "[3, 4]" fmt_int value_eq]
  obtain s where s: "Append_all (Some 0) [3, 4] ?s1 = Inr s"
    "String fmt_int (Some 0) s = Some (Inr (render fmt_int [3, 4], s))"
    and find: "\<forall>i<length [3, 4 :: int].
             value_eq ([3, 4 :: int] ! i) ([3, 4] ! i) = Some True
             \<and> (\<forall>j<i. value_eq ([3, 4 :: int] ! j) ([3, 4] ! i) = Some False) \<longrightarrow>
             Search value_eq (Some 0) ([3, 4] ! i) s = Some (Inr (int i, s))"
    by blast
  from find [rule_format, of 0] have "Search value_eq (Some 0) 3 s = Some (Inr (0, s))"
    by (simp add: value_eq_def)
  moreover from find [rule_format, of 1] have "Search value_eq (Some 0) 4 s = Some (Inr (1, s))"
    by (simp add: value_eq_def)
  ultimately show ?thesis
    using new s by (auto simp: render_def digit_char_def value_eq_def)
qed

text \<open>
  The claim as stated fails where a value occurs twice: after \<open>Append(5)\<close>,
  \<open>Append(5)\<close> on a list of integers the second value is at position 1 and
  \<open>Search(5)\<close> returns 0.
\<close>

theorem Search_second_occurrence_counterexample:
  "Append_all (Some 0) [5, 5] (snd (NewLinkedList empty_heap)) = Inr heap_5_5
   \<and> Search value_eq (Some 0) ([5, 5] ! 1) heap_5_5 = Some (Inr (0, heap_5_5))
   \<and> Search value_eq (Some 0) ([5, 5] ! 1) heap_5_5 \<noteq> Some (Inr (1, heap_5_5))"
  by (simp add: heap_5_5_def Search_def Search_loop.simps heap_ops)

section \<open>Append then Remove\<close>

text \<open>
  C5, as amended. For every list whose \<open>tail\<close> refers to the last node of its
  chain and every value \<open>v\<close> such that \<open>v == v\<close> is true and \<open>x == v\<close> is false
  for every value \<open>x\<close> of the list, \<open>Append(v)\<close> followed by \<open>Remove(v)\<close> returns
  without a panic and \<open>String\<close> renders the same string after the two calls as
  before them. On an element type where \<open>==\<close> is equality the condition on \<open>v\<close>
  is that \<open>v\<close> does not occur in the list.
\<close>

theorem Append_Remove_roundtrip:
  assumes "is_list s l as" and "tail_is_last s l as"
    and "\<forall>x \<in> set (elems s as). eq x v = Some False" and "eq v v = Some True"
  shows "\<exists>s1 s2 str. Append l v s = Inr s1 \<and> Remove eq l v s1 = Some (Inr s2)
           \<and> String fmt l s = Some (Inr (str, s)) \<and> String fmt l s2 = Some (Inr (str, s2))"
proof -
  from assms(1,2) obtain la L where l: "list_at s l = Some (la, L)"
    and c: "chain (nodes s) (head L) as" and t: "as = [] \<or> tail L = Some (last as)"
    by (auto simp: is_list_def tail_is_last_def split: option.splits)
  obtain s1 L1 where app: "Append l v s = Inr s1"
    and l1: "list_at s1 l = Some (la, L1)"
    and c1: "chain (nodes s1) (head L1) (as @ [length (nodes s)])"
    and vals: "\<forall>a. a < length (nodes s) \<longrightarrow> node_value (nodes s1 ! a) = node_value (nodes s ! a)"
    and new: "node_value (nodes s1 ! length (nodes s)) = v"
    using Append_chain [OF l c t, of v] by metis
  have old: "elems s1 as = elems s as"
    using vals chain_bound [OF c] by (intro elems_agree) auto
  with assms(3) have differ: "\<forall>x \<in> set (elems s1 as). eq x v = Some False" by simp
  from new assms(4) have same: "eq (node_value (nodes s1 ! length (nodes s))) v = Some True"
    by simp
  from Remove_last [where eq = eq and v = v, OF l1 c1 differ same]
  obtain s2 where rem: "Remove eq l v s1 = Some (Inr s2)" and il2: "is_list s2 l as"
    and el2: "elems s2 as = elems s1 as"
    by blast
  have "String fmt l s = Some (Inr (render fmt (elems s as), s))"
    using assms(1) by (rule String_is_list)
  moreover have "String fmt l s2 = Some (Inr (render fmt (elems s as), s2))"
    using String_is_list [OF il2, of fmt] el2 old by simp
  ultimately show ?thesis using app rem by blast
qed

theorem Append_Remove_roundtrip_witness:
  "is_list heap_1_2 (Some 0) [0, 1] \<and> tail_is_last heap_1_2 (Some 0) [0, 1]
   \<and> elems heap_1_2 [0, 1] = [1, 2]
   \<and> value_eq (1::int) 3 = Some False \<and> value_eq (2::int) 3 = Some False
   \<and> value_eq (3::int) 3 = Some True
   \<and> (\<exists>s1 s2 str. Append (Some 0) 3 heap_1_2 = Inr s1
          \<and> Remove value_eq (Some 0) 3 s1 = Some (Inr s2)
          \<and> String fmt_int (Some 0) heap_1_2 = Some (Inr (str, heap_1_2))
          \<and> String fmt_int (Some 0) s2 = Some (Inr (str, s2)))"
proof -
  have a: "is_list heap_1_2 (Some 0) [0, 1]" and b: "tail_is_last heap_1_2 (Some 0) [0, 1]"
    and e: "elems heap_1_2 [0, 1] = [1, 2]"
    by (simp_all add: heap_1_2_def is_list_def tail_is_last_def list_at_def)
  have c: "\<forall>x \<in> set (elems heap_1_2 [0, 1]). value_eq x 3 = Some False"
    unfolding e by (simp add: value_eq_def)
  have d: "value_eq (3::int) 3 = Some True"
    by (simp add: value_eq_def)
  from a b e c d
    Append_Remove_roundtrip [where eq = value_eq and v = 3 and fmt = fmt_int, OF a b c d]
  show ?thesis
    by (simp add: value_eq_def)
qed

text \<open>
  The claim as stated fails for a value the list already holds, since \<open>Remove\<close>
  removes the first node with the value: on the list of integers \<open>[1 2]\<close>,
  \<open>Append(1)\<close> then \<open>Remove(1)\<close> leaves \<open>[2 1]\<close>.
\<close>

theorem Append_Remove_present_value_counterexample:
  "Append_all (Some 0) [1, 2] (snd (NewLinkedList empty_heap)) = Inr heap_1_2
   \<and> String fmt_int (Some 0) heap_1_2 = Some (Inr (''[1 2]'', heap_1_2))
   \<and> Append (Some 0) 1 heap_1_2 = Inr heap_1_2_1
   \<and> Remove value_eq (Some 0) 1 heap_1_2_1 = Some (Inr heap_2_1)
   \<and> String fmt_int (Some 0) heap_2_1 = Some (Inr (''[2 1]'', heap_2_1))"
  by (simp add: heap_1_2_def heap_1_2_1_def heap_2_1_def String_def String_loop.simps
        Remove_def digit_char_def heap_ops)

section \<open>Concatenation\<close>

text \<open>
  C9, as amended. \<open>ConcatenarListas(l1, l2)\<close> returns \<open>l2\<close> and changes nothing when \<open>l1\<close>
  has no nodes; returns \<open>l1\<close> and changes nothing when \<open>l2\<close> has none; otherwise
  it sets the \<open>next\<close> of \<open>l1\<close>'s tail node \<open>t\<close> to \<open>l2\<close>'s head, \<open>l1.tail\<close>
  to \<open>l2.tail\<close>, \<open>l1.size\<close> to the sum of the two sizes, and returns \<open>l1\<close>. So,
  when \<open>t\<close> is the last node of \<open>l1\<close>'s chain and the two chains share no node,
  the values of the result are those of \<open>l1\<close> followed by those of \<open>l2\<close>.
\<close>

theorem ConcatenarListas_splices:
  assumes "list_at s l1 = Some (a1, L1)" and "list_at s l2 = Some (a2, L2)"
    and "chain (nodes s) (head L1) as" and "chain (nodes s) (head L2) bs"
  shows "(as = [] \<longrightarrow> ConcatenarListas l l1 l2 s = Inr (l2, s))
       \<and> (as \<noteq> [] \<and> bs = [] \<longrightarrow> ConcatenarListas l l1 l2 s = Inr (l1, s))
       \<and> (as \<noteq> [] \<and> bs \<noteq> [] \<and> tail L1 = Some t \<and> t < length (nodes s) \<longrightarrow>
            (\<exists>s'. ConcatenarListas l l1 l2 s = Inr (l1, s')
               \<and> nodes s' = (nodes s)[t := (nodes s ! t)\<lparr>node_next := head L2\<rparr>]
               \<and> headers s' = (headers s)[a1 := L1\<lparr>tail := tail L2, size_f := size_f L1 + size_f L2\<rparr>]
               \<and> (t = last as \<and> set as \<inter> set bs = {} \<longrightarrow>
                     is_list s' l1 (as @ bs) \<and> elems s' (as @ bs) = elems s as @ elems s bs)))"
proof (intro conjI impI)
  assume "as = []"
  with assms show "ConcatenarListas l l1 l2 s = Inr (l2, s)"
    by (simp add: ConcatenarListas_def)
next
  assume "as \<noteq> [] \<and> bs = []"
  with assms obtain a where "head L1 = Some a" "head L2 = None"
    by (cases as) auto
  with assms show "ConcatenarListas l l1 l2 s = Inr (l1, s)"
    by (simp add: ConcatenarListas_def)
next
  assume h: "as \<noteq> [] \<and> bs \<noteq> [] \<and> tail L1 = Some t \<and> t < length (nodes s)"
  with assms obtain a b where hd: "head L1 = Some a" "head L2 = Some b"
    by (cases as; cases bs) auto
  from assms have la: "l1 = Some a1" "a1 < length (headers s)" "L1 = headers s ! a1"
    "l2 = Some a2" "a2 < length (headers s)" "L2 = headers s ! a2"
    by (auto simp: list_at_def split: option.splits if_splits)
  let ?s' = "\<lparr>nodes = (nodes s)[t := (nodes s ! t)\<lparr>node_next := head L2\<rparr>],
             headers = (headers s)[a1 := L1\<lparr>tail := tail L2, size_f := size_f L1 + size_f L2\<rparr>]\<rparr>"
  have run: "ConcatenarListas l l1 l2 s = Inr (l1, ?s')"
  proof (cases "a1 = a2")
    case True
    with la have same: "L2 = L1" by simp
    obtain h0 t0 z0 where L1: "L1 = \<lparr>head = h0, tail = t0, size_f = z0\<rparr>"
      by (cases L1) auto
    from assms(1) hd h True same la(1,2,4) la(3) [symmetric] show ?thesis
      by (simp add: ConcatenarListas_def node_at_def put_next_def put_list_def Let_def L1)
  next
    case False
    with assms(1,2) hd h la show ?thesis
      by (simp add: ConcatenarListas_def node_at_def put_next_def put_list_def Let_def)
  qed
  have seq: "is_list ?s' l1 (as @ bs) \<and> elems ?s' (as @ bs) = elems s as @ elems s bs"
    if inv: "t = last as \<and> set as \<inter> set bs = {}"
  proof -
    have ch: "chain (nodes ?s') (head L1) (as @ bs)"
      using chain_link [OF assms(3) _ assms(4)] h inv by simp
    have il: "is_list ?s' l1 (as @ bs)"
      using ch la by (simp add: is_list_def list_at_def)
    have el: "elems ?s' (as @ bs) = elems s (as @ bs)"
      by (intro elems_agree) simp
    from il el show ?thesis by simp
  qed
  show "\<exists>s'. ConcatenarListas l l1 l2 s = Inr (l1, s')
               \<and> nodes s' = (nodes s)[t := (nodes s ! t)\<lparr>node_next := head L2\<rparr>]
               \<and> headers s' = (headers s)[a1 := L1\<lparr>tail := tail L2, size_f := size_f L1 + size_f L2\<rparr>]
               \<and> (t = last as \<and> set as \<inter> set bs = {} \<longrightarrow>
                     is_list s' l1 (as @ bs) \<and> elems s' (as @ bs) = elems s as @ elems s bs)"
  proof (intro exI [of _ ?s'] conjI impI)
    show "ConcatenarListas l l1 l2 s = Inr (l1, ?s')" by (rule run)
    show "nodes ?s' = (nodes s)[t := (nodes s ! t)\<lparr>node_next := head L2\<rparr>]" by simp
    show "headers ?s' = (headers s)[a1 := L1\<lparr>tail := tail L2, size_f := size_f L1 + size_f L2\<rparr>]"
      by simp
    show "is_list ?s' l1 (as @ bs)" if "t = last as \<and> set as \<inter> set bs = {}"
      using seq [OF that] by blast
    show "elems ?s' (as @ bs) = elems s as @ elems s bs" if "t = last as \<and> set as \<inter> set bs = {}"
      using seq [OF that] by blast
  qed
qed

theorem ConcatenarListas_splices_witness:
  "list_at heap_12_34 (Some 0) = Some (0, \<lparr>head = Some 0, tail = Some 1, size_f = 2\<rparr>)
   \<and> list_at heap_12_34 (Some 1) = Some (1, \<lparr>head = Some 2, tail = Some 3, size_f = 2\<rparr>)
   \<and> chain (nodes heap_12_34) (Some 0) [0, 1] \<and> chain (nodes heap_12_34) (Some 2) [2, 3]
   \<and> (\<exists>s'. ConcatenarListas None (Some 0) (Some 1) heap_12_34 = Inr (Some 0, s')
         \<and> is_list s' (Some 0) [0, 1, 2, 3] \<and> elems s' [0, 1, 2, 3] = [1, 2, 3, 4]
         \<and> headers s' = [\<lparr>head = Some 0, tail = Some 3, size_f = 4\<rparr>,
                        \<lparr>head = Some 2, tail = Some 3, size_f = 2\<rparr>])"
proof -
  have a: "list_at heap_12_34 (Some 0) = Some (0, \<lparr>head = Some 0, tail = Some 1, size_f = 2\<rparr>)"
    and b: "list_at heap_12_34 (Some 1) = Some (1, \<lparr>head = Some 2, tail = Some 3, size_f = 2\<rparr>)"
    and c: "chain (nodes heap_12_34) (head \<lparr>head = Some 0, tail = Some 1, size_f = 2\<rparr>) [0, 1]"
    and d: "chain (nodes heap_12_34) (head \<lparr>head = Some 2, tail = Some 3, size_f = 2\<rparr>) [2, 3]"
    by (simp_all add: heap_12_34_def list_at_def)
  have e: "elems heap_12_34 [0, 1] @ elems heap_12_34 [2, 3] = [1, 2, 3, 4]"
    and f: "(headers heap_12_34)[0 := \<lparr>head = Some 0, tail = Some 1, size_f = 2\<rparr>
              \<lparr>tail := tail \<lparr>head = Some 2, tail = Some 3, size_f = 2\<rparr>,
               size_f := size_f \<lparr>head = Some 0, tail = Some 1, size_f = 2\<rparr>
                         + size_f \<lparr>head = Some 2, tail = Some 3, size_f = 2\<rparr>\<rparr>] =
            [\<lparr>head = Some 0, tail = Some 3, size_f = 4\<rparr>, \<lparr>head = Some 2, tail = Some 3, size_f = 2\<rparr>]"
    by (simp_all add: heap_12_34_def)
  from ConcatenarListas_splices [OF a b c d, where t = 1 and l = None] e f
  obtain s' where "ConcatenarListas None (Some 0) (Some 1) heap_12_34 = Inr (Some 0, s')"
    "is_list s' (Some 0) [0, 1, 2, 3]" "elems s' [0, 1, 2, 3] = [1, 2, 3, 4]"
    "headers s' = [\<lparr>head = Some 0, tail = Some 3, size_f = 4\<rparr>,
                 \<lparr>head = Some 2, tail = Some 3, size_f = 2\<rparr>]"
    by (auto simp: heap_12_34_def)
  with a b c d show ?thesis by auto
qed

text \<open>
  The claim as stated gives the element sequence without these two conditions, and
  fails without either. The splice is destructive and shares nodes: with the same
  list as both arguments, \<open>ConcatenarListas(a, a)\<close> on \<open>[1 2]\<close> links the last
  node back to the first, so the result is not \<open>[1 2 1 2]\<close>, which has no position
  4: \<open>Get(4)\<close> returns a value. And a \<open>tail\<close> that \<open>Remove\<close> left on a removed
  node (C3) makes the splice miss the chain: after \<open>Append(1)\<close>, \<open>Append(2)\<close>,
  \<open>Remove(2)\<close>, concatenating with \<open>[3 4]\<close> renders \<open>[1]\<close>.
\<close>

theorem ConcatenarListas_sequence_counterexample:
  "ConcatenarListas None (Some 0) (Some 0) heap_1_2 = Inr (Some 0, heap_1_2_cycle)
   \<and> Get (Some 0) 4 heap_1_2_cycle = Inr (Inr 1, heap_1_2_cycle)
   \<and> Append_all (Some 0) [1, 2] (snd (NewLinkedList empty_heap)) = Inr heap_1_2
   \<and> Remove value_eq (Some 0) 2 heap_1_2 = Some (Inr heap_1_stale)
   \<and> fst (NewLinkedList heap_1_stale) = Some 1
   \<and> Append_all (Some 1) [3, 4] (snd (NewLinkedList heap_1_stale)) = Inr heap_1_stale_34
   \<and> String fmt_int (Some 0) heap_1_stale_34 = Some (Inr (''[1]'', heap_1_stale_34))
   \<and> String fmt_int (Some 1) heap_1_stale_34 = Some (Inr (''[3 4]'', heap_1_stale_34))
   \<and> ConcatenarListas None (Some 0) (Some 1) heap_1_stale_34 = Inr (Some 0, heap_1_stale_34_spliced)
   \<and> String fmt_int (Some 0) heap_1_stale_34_spliced =
        Some (Inr (''[1]'', heap_1_stale_34_spliced))"
  by (simp add: heap_1_2_def heap_1_2_cycle_def heap_1_stale_def heap_1_stale_34_def
        heap_1_stale_34_spliced_def ConcatenarListas_def Let_def Get_def Get_loop.simps
        Remove_def Remove_loop.simps String_def String_loop.simps digit_char_def heap_ops)

section \<open>Interleaving\<close>

text \<open>
  C8. \<open>IntercalarListas(l1, l2)\<close> returns \<open>nil\<close>, and changes nothing, whenever
  \<open>l1\<close> or \<open>l2\<close> is \<open>nil\<close>, whatever the other argument, the receiver and the
  heap are. For two lists it returns a list at a new address, so not \<open>nil\<close>,
  on nodes allocated by the call, whose values are those of \<open>l1\<close> and \<open>l2\<close>
  taken in turn while both last, followed by the rest of the longer one; every list
  header and node that existed before the call is unchanged, so both inputs still
  hold their values.
\<close>

theorem IntercalarListas_interleaves:
  "(l1 = None \<or> l2 = None \<longrightarrow> IntercalarListas l l1 l2 s = Some (Inr (None, s)))
   \<and> (is_list s l1 as \<and> is_list s l2 bs \<longrightarrow>
        (\<exists>s' cs. IntercalarListas l l1 l2 s = Some (Inr (Some (length (headers s)), s'))
             \<and> is_list s' (Some (length (headers s))) cs
             \<and> elems s' cs = interleave (elems s as) (elems s bs)
             \<and> take (length (headers s)) (headers s') = headers s
             \<and> take (length (nodes s)) (nodes s') = nodes s
             \<and> (\<forall>c \<in> set cs. length (nodes s) \<le> c)
             \<and> is_list s' l1 as \<and> elems s' as = elems s as
             \<and> is_list s' l2 bs \<and> elems s' bs = elems s bs))"
proof (intro conjI impI)
  assume "l1 = None \<or> l2 = None"
  then show "IntercalarListas l l1 l2 s = Some (Inr (None, s))"
    by (simp add: IntercalarListas_def)
next
  assume assms: "is_list s l1 as \<and> is_list s l2 bs"
  let ?r = "length (headers s)"
  let ?s0 = "s\<lparr>headers := headers s @ [\<lparr>head = None, tail = None, size_f = 0\<rparr>]\<rparr>"
  from assms obtain a1 L1 a2 L2 where l1: "list_at s l1 = Some (a1, L1)"
    and c1: "chain (nodes s) (head L1) as"
    and l2: "list_at s l2 = Some (a2, L2)" and c2: "chain (nodes s) (head L2) bs"
    by (auto simp: is_list_def split: option.splits)
  have new: "NewLinkedList s = (Some ?r, ?s0)"
    by (simp add: NewLinkedList_def)
  have l1': "list_at ?s0 l1 = Some (a1, L1)" and l2': "list_at ?s0 l2 = Some (a2, L2)"
    using l1 l2 by (auto simp: list_at_def NewLinkedList_def nth_append split: option.splits if_splits)
  have inv0: "result_inv s ?s0 ?r []"
    by (simp add: result_inv_def NewLinkedList_def nth_append)
  from Intercalar_both_chain [OF inv0 c1 c2]
  obtain st1 ds1 p' q' where both: "Intercalar_both (Some ?r) (head L1) (head L2) ?s0 = Some (Inr (p', q', st1))"
    and inv1: "result_inv s st1 ?r ds1"
    and el1: "elems st1 ds1 = alternate (elems s as) (elems s bs)"
    and p': "chain (nodes s) p' (drop (length bs) as)"
    and q': "chain (nodes s) q' (drop (length as) bs)"
    by auto
  from Intercalar_rest_chain [OF inv1 p']
  obtain st2 ds2 where rest1: "Intercalar_rest (Some ?r) p' st1 = Some (Inr st2)"
    and inv2: "result_inv s st2 ?r (ds1 @ ds2)"
    and el2: "elems st2 (ds1 @ ds2) = elems st1 ds1 @ elems s (drop (length bs) as)"
    by blast
  from Intercalar_rest_chain [OF inv2 q']
  obtain st3 ds3 where rest2: "Intercalar_rest (Some ?r) q' st2 = Some (Inr st3)"
    and inv3: "result_inv s st3 ?r ((ds1 @ ds2) @ ds3)"
    and el3: "elems st3 ((ds1 @ ds2) @ ds3) = elems st2 (ds1 @ ds2) @ elems s (drop (length as) bs)"
    by blast
  from l1 l2 have nn: "l1 \<noteq> None" "l2 \<noteq> None"
    by (auto simp: list_at_def split: option.splits)
  have run: "IntercalarListas l l1 l2 s = Some (Inr (Some ?r, st3))"
    using nn new l1' l2' both rest1 rest2 by (simp add: IntercalarListas_def)
  have il: "is_list st3 (Some ?r) ((ds1 @ ds2) @ ds3)"
    using inv3 by (simp add: result_inv_def is_list_def list_at_def)
  have el: "elems st3 ((ds1 @ ds2) @ ds3) = interleave (elems s as) (elems s bs)"
    using el1 el2 el3 by (simp add: interleave_alternate elems_def drop_map)
  have tl: "take ?r (headers st3) = headers s"
    using inv3 by (intro nth_equalityI) (auto simp: result_inv_def)
  have tn: "take (length (nodes s)) (nodes st3) = nodes s"
    using inv3 by (intro nth_equalityI) (auto simp: result_inv_def)
  have fresh: "\<forall>c \<in> set ((ds1 @ ds2) @ ds3). length (nodes s) \<le> c"
    using inv3 by (simp add: result_inv_def)
  have src1: "is_list st3 l1 as \<and> elems st3 as = elems s as"
    using result_inv_source [OF inv3 l1 c1] .
  have src2: "is_list st3 l2 bs \<and> elems st3 bs = elems s bs"
    using result_inv_source [OF inv3 l2 c2] .
  from run il el tl tn fresh src1 src2
  show "\<exists>s' cs. IntercalarListas l l1 l2 s = Some (Inr (Some (length (headers s)), s'))
             \<and> is_list s' (Some (length (headers s))) cs
             \<and> elems s' cs = interleave (elems s as) (elems s bs)
             \<and> take (length (headers s)) (headers s') = headers s
             \<and> take (length (nodes s)) (nodes s') = nodes s
             \<and> (\<forall>c \<in> set cs. length (nodes s) \<le> c)
             \<and> is_list s' l1 as \<and> elems s' as = elems s as
             \<and> is_list s' l2 bs \<and> elems s' bs = elems s bs"
    by blast
qed

theorem IntercalarListas_interleaves_witness:
  "IntercalarListas None None None heap_135_24 = Some (Inr (None, heap_135_24))
   \<and> IntercalarListas None None (Some 1) heap_135_24 = Some (Inr (None, heap_135_24))
   \<and> IntercalarListas None (Some 0) None heap_135_24 = Some (Inr (None, heap_135_24))
   \<and> is_list heap_135_24 (Some 0) [0, 1, 2] \<and> is_list heap_135_24 (Some 1) [3, 4]
   \<and> (\<exists>s' cs. IntercalarListas None (Some 0) (Some 1) heap_135_24 = Some (Inr (Some 2, s'))
         \<and> is_list s' (Some 2) cs \<and> elems s' cs = [1, 2, 3, 4, 5]
         \<and> is_list s' (Some 0) [0, 1, 2] \<and> elems s' [0, 1, 2] = [1, 3, 5]
         \<and> is_list s' (Some 1) [3, 4] \<and> elems s' [3, 4] = [2, 4])"
proof -
  have a: "is_list heap_135_24 (Some 0) [0, 1, 2]" and b: "is_list heap_135_24 (Some 1) [3, 4]"
    by (simp_all add: heap_135_24_def is_list_def list_at_def)
  have e: "elems heap_135_24 [0, 1, 2] = [1, 3, 5]" "elems heap_135_24 [3, 4] = [2, 4]"
    "length (headers heap_135_24) = 2"
    by (simp_all add: heap_135_24_def)
  from IntercalarListas_interleaves [of None None None heap_135_24]
  have n0: "IntercalarListas None None None heap_135_24 = Some (Inr (None, heap_135_24))"
    by simp
  from IntercalarListas_interleaves [of None "Some 1" None heap_135_24]
  have n1: "IntercalarListas None None (Some 1) heap_135_24 = Some (Inr (None, heap_135_24))"
    by simp
  from IntercalarListas_interleaves [of "Some 0" None None heap_135_24]
  have n2: "IntercalarListas None (Some 0) None heap_135_24 = Some (Inr (None, heap_135_24))"
    by simp
  from IntercalarListas_interleaves
         [of "Some 0" "Some 1" None heap_135_24 "[0, 1, 2]" "[3, 4]"] a b
  have "\<exists>s' cs. IntercalarListas None (Some 0) (Some 1) heap_135_24 = Some (Inr (Some 2, s'))
         \<and> is_list s' (Some 2) cs \<and> elems s' cs = [1, 2, 3, 4, 5]
         \<and> is_list s' (Some 0) [0, 1, 2] \<and> elems s' [0, 1, 2] = [1, 3, 5]
         \<and> is_list s' (Some 1) [3, 4] \<and> elems s' [3, 4] = [2, 4]"
    unfolding e by fastforce
  with n0 n1 n2 a b show ?thesis by blast
qed

section \<open>The receiver of the combination methods\<close>

text \<open>
  C10, as amended. The bodies of \<open>ConcatenarListas\<close> and \<open>IntercalarListas\<close>
  never mention the receiver: the result and the heap after the call are the same
  for every receiver. \<open>IntercalarListas\<close>, when it returns, has changed no list
  header and no node that existed before the call. \<open>ConcatenarListas\<close>, when it
  returns, has changed no list header other than that of \<open>l1\<close> and no node other
  than the tail node of \<open>l1\<close>; so the receiver's header is unchanged whenever
  the receiver is not \<open>l1\<close> itself.
\<close>

theorem combination_ignores_receiver:
  "ConcatenarListas l l1 l2 s = ConcatenarListas l' l1 l2 s
   \<and> IntercalarListas l l1 l2 s = IntercalarListas l' l1 l2 s
   \<and> (\<forall>res s'. ConcatenarListas l l1 l2 s = Inr (res, s') \<longrightarrow>
         length (headers s') = length (headers s) \<and> length (nodes s') = length (nodes s)
         \<and> (l \<noteq> l1 \<longrightarrow> list_at s' l = list_at s l)
         \<and> (\<forall>a. nodes s' ! a \<noteq> nodes s ! a \<longrightarrow>
               (\<exists>a1 L1. list_at s l1 = Some (a1, L1) \<and> tail L1 = Some a)))
   \<and> (\<forall>res s'. IntercalarListas l l1 l2 s = Some (Inr (res, s')) \<longrightarrow>
         take (length (headers s)) (headers s') = headers s
         \<and> take (length (nodes s)) (nodes s') = nodes s)"
proof (intro conjI allI impI)
  show "ConcatenarListas l l1 l2 s = ConcatenarListas l' l1 l2 s"
    by (simp add: ConcatenarListas_def)
  show "IntercalarListas l l1 l2 s = IntercalarListas l' l1 l2 s"
    by (simp add: IntercalarListas_def)
next
  fix res s'
  assume run: "ConcatenarListas l l1 l2 s = Inr (res, s')"
  note frame = ConcatenarListas_frame [OF run]
  from frame show "length (headers s') = length (headers s)" by blast
  from frame show "length (nodes s') = length (nodes s)" by blast
  {
    assume "l \<noteq> l1"
    with frame show "list_at s' l = list_at s l"
      by (cases l) (auto simp: list_at_def)
  }
  {
    fix a assume "nodes s' ! a \<noteq> nodes s ! a"
    with frame show "\<exists>a1 L1. list_at s l1 = Some (a1, L1) \<and> tail L1 = Some a"
      by blast
  }
next
  fix res s'
  assume run: "IntercalarListas l l1 l2 s = Some (Inr (res, s'))"
  from IntercalarListas_frame [OF run]
  show "take (length (headers s)) (headers s') = headers s"
    and "take (length (nodes s)) (nodes s') = nodes s"
    by blast+
qed

lemma ConcatenarListas_example:
  "ConcatenarListas l (Some 0) (Some 1) heap_12_34 = Inr (Some 0, heap_1234)"
  by (simp add: ConcatenarListas_def heap_12_34_def heap_1234_def Let_def heap_ops)

lemma IntercalarListas_example:
  "IntercalarListas l (Some 0) (Some 1) heap_135_24 = Some (Inr (Some 2, heap_135_24_12345))"
  by (simp add: IntercalarListas_def Intercalar_both.simps Intercalar_rest.simps
        heap_135_24_def heap_135_24_12345_def heap_ops)

theorem combination_ignores_receiver_witness:
  "ConcatenarListas (Some 1) (Some 0) (Some 1) heap_12_34 = Inr (Some 0, heap_1234)
   \<and> ConcatenarListas None (Some 0) (Some 1) heap_12_34 = Inr (Some 0, heap_1234)
   \<and> Some 1 \<noteq> Some (0::nat)
   \<and> list_at heap_1234 (Some 1) = list_at heap_12_34 (Some 1)
   \<and> nodes heap_1234 ! 1 \<noteq> nodes heap_12_34 ! 1
   \<and> tail (headers heap_12_34 ! 0) = Some 1
   \<and> IntercalarListas (Some 0) (Some 0) (Some 1) heap_135_24 =
       Some (Inr (Some 2, heap_135_24_12345))
   \<and> IntercalarListas None (Some 0) (Some 1) heap_135_24 =
       Some (Inr (Some 2, heap_135_24_12345))
   \<and> take (length (headers heap_135_24)) (headers heap_135_24_12345) = headers heap_135_24
   \<and> take (length (nodes heap_135_24)) (nodes heap_135_24_12345) = nodes heap_135_24"
proof -
  have c: "ConcatenarListas (Some 1) (Some 0) (Some 1) heap_12_34 = Inr (Some 0, heap_1234)"
    by (rule ConcatenarListas_example)
  have i: "IntercalarListas (Some 0) (Some 0) (Some 1) heap_135_24 =
             Some (Inr (Some 2, heap_135_24_12345))"
    by (rule IntercalarListas_example)
  have n: "nodes heap_1234 ! 1 \<noteq> nodes heap_12_34 ! 1" "tail (headers heap_12_34 ! 0) = Some 1"
    by (simp_all add: heap_1234_def heap_12_34_def)
  from combination_ignores_receiver
         [of "Some 1" "Some 0" "Some 1" heap_12_34 None]
       combination_ignores_receiver
         [of "Some 0" "Some 0" "Some 1" heap_135_24 None]
       c i n
  show ?thesis by auto
qed

text \<open>
  The claim as stated fails when the receiver is also passed as \<open>l1\<close>, as in
  \<open>a.ConcatenarListas(a, b)\<close>: the call rewrites the receiver's \<open>tail\<close> and
  \<open>size\<close>.
\<close>

theorem receiver_as_list1_counterexample:
  "ConcatenarListas (Some 0) (Some 0) (Some 1) heap_12_34 = Inr (Some 0, heap_1234)
   \<and> list_at heap_12_34 (Some 0) = Some (0, \<lparr>head = Some 0, tail = Some 1, size_f = 2\<rparr>)
   \<and> list_at heap_1234 (Some 0) = Some (0, \<lparr>head = Some 0, tail = Some 3, size_f = 4\<rparr>)
   \<and> list_at heap_1234 (Some 0) \<noteq> list_at heap_12_34 (Some 0)"
  by (simp add: ConcatenarListas_def heap_12_34_def heap_1234_def Let_def heap_ops)

end
